theory Spec2Isabelle
  imports Complex_Main "HOL-Library.Sublist"
begin

section \<open>JavaScript strings\<close>

text \<open>
  A JavaScript string is a sequence of UTF-16 code units. The subscriber code
  (\<^verbatim>\<open>frontend/hooks/useLatentLoop.ts\<close>, \<^verbatim>\<open>static/js/rendering.js\<close>,
  \<^verbatim>\<open>static/js/api.js\<close>) only compares, searches and trims strings, so a code unit
  is modelled by its number. \<open>utf16\<close> writes an ASCII literal as such a string.
\<close>

type_synonym jsstring = "nat list"

definition utf16 :: "string \<Rightarrow> jsstring" where
  "utf16 s = map of_char s"

text \<open>
  ECMAScript \<open>LineTerminator\<close>: LF, CR, U+2028, U+2029. The regular-expression
  atom \<^verbatim>\<open>.\<close> matches every code unit but these, and \<^verbatim>\<open>^\<close>, \<^verbatim>\<open>$\<close> under the
  \<^verbatim>\<open>m\<close> flag look for them.
\<close>

definition is_line_terminator :: "nat \<Rightarrow> bool" where
  "is_line_terminator c = (c = 10 \<or> c = 13 \<or> c = 8232 \<or> c = 8233)"

text \<open>
  ECMAScript \<open>WhiteSpace\<close>: TAB, VT, FF, U+FEFF and the Unicode space separators.
\<close>

definition is_white_space :: "nat \<Rightarrow> bool" where
  "is_white_space c =
     (c = 9 \<or> c = 11 \<or> c = 12 \<or> c = 32 \<or> c = 160 \<or> c = 5760 \<or>
      (8192 \<le> c \<and> c \<le> 8202) \<or> c = 8239 \<or> c = 8287 \<or> c = 12288 \<or> c = 65279)"

text \<open>
  The class \<^verbatim>\<open>\s\<close> of a regular expression and the code units that
  \<^verbatim>\<open>String.prototype.trim\<close> strips: \<open>WhiteSpace\<close> and \<open>LineTerminator\<close>.
\<close>

definition is_space :: "nat \<Rightarrow> bool" where
  "is_space c = (is_white_space c \<or> is_line_terminator c)"

definition trim :: "jsstring \<Rightarrow> jsstring" where
  "trim s = rev (dropWhile is_space (rev (dropWhile is_space s)))"

definition hash :: nat where
  "hash = 35"

section \<open>The header regular expression\<close>

text \<open>
  \<^verbatim>\<open>var headerRegex = /^#{1,3}\s+(.+)$/gm;\<close>

  The matcher is written as the backtracking search ECMAScript prescribes, on the
  suffix of the text that starts at the position tried. A successful match returns the
  capture group and the text after the match (where \<^verbatim>\<open>lastIndex\<close> then stands).

  \<^verbatim>\<open>(.+)$\<close>: the greedy \<^verbatim>\<open>.+\<close> first takes every code unit up to the next line
  terminator; there \<^verbatim>\<open>$\<close> holds (end of input or a line terminator follows), so the
  first try succeeds unless the run is empty, and a shorter run is never looked at
  (\<^verbatim>\<open>$\<close> fails inside the run, so backtracking would not help where the run is empty).
\<close>

definition dot_plus_eol :: "jsstring \<Rightarrow> (jsstring \<times> jsstring) option" where
  "dot_plus_eol s =
     (let cap = takeWhile (\<lambda>c. \<not> is_line_terminator c) s
      in if cap = [] then None
         else Some (cap, dropWhile (\<lambda>c. \<not> is_line_terminator c) s))"

text \<open>
  \<^verbatim>\<open>\s+\<close> followed by the rest of the pattern: \<open>ws_plus_then j s\<close> tries \<open>j\<close> code
  units of white space, then \<open>j - 1\<close>, down to one.
\<close>

fun ws_plus_then :: "nat \<Rightarrow> jsstring \<Rightarrow> (jsstring \<times> jsstring) option" where
  "ws_plus_then 0 s = None"
| "ws_plus_then (Suc j) s =
     (case dot_plus_eol (drop (Suc j) s) of
        Some r \<Rightarrow> Some r
      | None \<Rightarrow> ws_plus_then j s)"

definition ws_plus :: "jsstring \<Rightarrow> (jsstring \<times> jsstring) option" where
  "ws_plus s = ws_plus_then (length (takeWhile is_space s)) s"

text \<open>
  \<^verbatim>\<open>#{1,3}\<close> followed by the rest of the pattern: greedy, at most three, at least one.
\<close>

fun hashes_then :: "nat \<Rightarrow> jsstring \<Rightarrow> (jsstring \<times> jsstring) option" where
  "hashes_then 0 s = None"
| "hashes_then (Suc k) s =
     (case ws_plus (drop (Suc k) s) of
        Some r \<Rightarrow> Some r
      | None \<Rightarrow> hashes_then k s)"

definition match_header :: "jsstring \<Rightarrow> (jsstring \<times> jsstring) option" where
  "match_header s = hashes_then (min 3 (length (takeWhile (\<lambda>c. c = hash) s))) s"

lemma dot_plus_eol_shorter:
  "dot_plus_eol s = Some (cap, rest) \<Longrightarrow> cap \<noteq> [] \<and> length rest < length s"
proof -
  assume a: "dot_plus_eol s = Some (cap, rest)"
  let ?p = "\<lambda>c. \<not> is_line_terminator c"
  from a have c: "cap = takeWhile ?p s" and r: "rest = dropWhile ?p s" and ne: "cap \<noteq> []"
    by (auto simp: dot_plus_eol_def Let_def split: if_splits)
  have "length (takeWhile ?p s) + length (dropWhile ?p s) = length s"
    by (metis length_append takeWhile_dropWhile_id)
  moreover from c ne have "0 < length (takeWhile ?p s)" by simp
  ultimately have "length (dropWhile ?p s) < length s" by linarith
  with r ne show ?thesis by simp
qed

lemma ws_plus_then_shorter:
  "ws_plus_then j s = Some (cap, rest) \<Longrightarrow> cap \<noteq> [] \<and> length rest < length s"
proof (induction j)
  case 0
  then show ?case by simp
next
  case (Suc j)
  show ?case
  proof (cases "dot_plus_eol (drop (Suc j) s)")
    case None
    with Suc show ?thesis by simp
  next
    case (Some r)
    with Suc.prems have "dot_plus_eol (drop (Suc j) s) = Some (cap, rest)" by simp
    from dot_plus_eol_shorter [OF this] show ?thesis by auto
  qed
qed

lemma hashes_then_shorter:
  "hashes_then k s = Some (cap, rest) \<Longrightarrow> cap \<noteq> [] \<and> length rest < length s"
proof (induction k)
  case 0
  then show ?case by simp
next
  case (Suc k)
  show ?case
  proof (cases "ws_plus (drop (Suc k) s)")
    case None
    with Suc show ?thesis by simp
  next
    case (Some r)
    with Suc.prems have "ws_plus_then (length (takeWhile is_space (drop (Suc k) s))) (drop (Suc k) s)
        = Some (cap, rest)"
      by (simp add: ws_plus_def)
    from ws_plus_then_shorter [OF this] show ?thesis by auto
  qed
qed

lemma match_header_shorter:
  "match_header s = Some (cap, rest) \<Longrightarrow> cap \<noteq> [] \<and> length rest < length s"
  unfolding match_header_def by (rule hashes_then_shorter)

text \<open>
  The loop \<^verbatim>\<open>while ((match = headerRegex.exec(text)) !== null)\<close> with the \<^verbatim>\<open>g\<close>
  flag: each call searches from \<^verbatim>\<open>lastIndex\<close> for the first position where the
  pattern matches and leaves \<^verbatim>\<open>lastIndex\<close> after the match. \<open>bol\<close> says that
  \<^verbatim>\<open>^\<close> holds at the current position (start of the text, or the code unit before is a
  line terminator). The result lists \<^verbatim>\<open>match[1]\<close> of every match.
\<close>

function exec_all :: "bool \<Rightarrow> jsstring \<Rightarrow> jsstring list" where
  "exec_all bol [] = []"
| "exec_all bol (c # cs) =
     (case (if bol then match_header (c # cs) else None) of
        Some (cap, rest) \<Rightarrow> cap # exec_all (is_line_terminator (last cap)) rest
      | None \<Rightarrow> exec_all (is_line_terminator c) cs)"
  by pat_completeness auto
termination
proof (relation "measure (\<lambda>(bol, s). length s)", goal_cases)
  case 1
  show ?case by simp
next
  case (2 bol c cs)
  show ?case by simp
next
  case (3 bol c cs x2 cap rest)
  then have "match_header (c # cs) = Some (cap, rest)"
    by (simp split: if_splits)
  from match_header_shorter [OF this] show ?case by simp
qed

section \<open>detectNewSection\<close>

text \<open>
  \<^verbatim>\<open>oldHeaders.push(match[1].trim())\<close> for every match: the heading labels of a text,
  in text order.
\<close>

definition headers :: "jsstring \<Rightarrow> jsstring list" where
  "headers content = map trim (exec_all True content)"

text \<open>
  \<^verbatim>\<open>for (const header of newHeaders) { if (!oldHeaders.includes(header)) return header; }
  return null;\<close>
\<close>

fun first_new :: "jsstring list \<Rightarrow> jsstring list \<Rightarrow> jsstring option" where
  "first_new oldHeaders [] = None"
| "first_new oldHeaders (header # newHeaders) =
     (if header \<notin> set oldHeaders then Some header
      else first_new oldHeaders newHeaders)"

definition detectNewSection :: "jsstring \<Rightarrow> jsstring \<Rightarrow> jsstring option" where
  "detectNewSection oldContent newContent =
     first_new (headers oldContent) (headers newContent)"

lemmas regex_eval =
  utf16_def match_header_def hash_def ws_plus_def is_space_def is_white_space_def
  is_line_terminator_def dot_plus_eol_def trim_def headers_def

lemma first_new_None_iff:
  "first_new oldHeaders newHeaders = None \<longleftrightarrow> set newHeaders \<subseteq> set oldHeaders"
  by (induction newHeaders) auto

lemma first_new_Some_iff:
  "first_new oldHeaders newHeaders = Some h \<longleftrightarrow>
     (\<exists>i < length newHeaders. newHeaders ! i = h \<and> h \<notin> set oldHeaders \<and>
        (\<forall>j < i. newHeaders ! j \<in> set oldHeaders))"
proof (induction newHeaders)
  case Nil
  show ?case by simp
next
  case (Cons x xs)
  show ?case
  proof (cases "x \<in> set oldHeaders")
    case False
    have "(\<exists>i < length (x # xs). (x # xs) ! i = h \<and> h \<notin> set oldHeaders \<and>
        (\<forall>j < i. (x # xs) ! j \<in> set oldHeaders)) \<longleftrightarrow> x = h"
    proof
      assume "\<exists>i < length (x # xs). (x # xs) ! i = h \<and> h \<notin> set oldHeaders \<and>
        (\<forall>j < i. (x # xs) ! j \<in> set oldHeaders)"
      then obtain i where i: "(x # xs) ! i = h" "\<forall>j < i. (x # xs) ! j \<in> set oldHeaders"
        by blast
      show "x = h"
      proof (cases i)
        case 0
        with i show ?thesis by simp
      next
        case (Suc n)
        with i(2) have "(x # xs) ! 0 \<in> set oldHeaders" by blast
        with False show ?thesis by simp
      qed
    next
      assume "x = h"
      with False show "\<exists>i < length (x # xs). (x # xs) ! i = h \<and> h \<notin> set oldHeaders \<and>
        (\<forall>j < i. (x # xs) ! j \<in> set oldHeaders)"
        by (intro exI [of _ 0]) simp
    qed
    with False show ?thesis by auto
  next
    case True
    have "(\<exists>i < length (x # xs). (x # xs) ! i = h \<and> h \<notin> set oldHeaders \<and>
        (\<forall>j < i. (x # xs) ! j \<in> set oldHeaders)) \<longleftrightarrow>
      (\<exists>i < length xs. xs ! i = h \<and> h \<notin> set oldHeaders \<and>
        (\<forall>j < i. xs ! j \<in> set oldHeaders))" (is "?L \<longleftrightarrow> ?R")
    proof
      assume ?L
      then obtain i where i: "i < length (x # xs)" "(x # xs) ! i = h" "h \<notin> set oldHeaders"
        "\<forall>j < i. (x # xs) ! j \<in> set oldHeaders"
        by blast
      from i(2,3) True obtain n where n: "i = Suc n" by (cases i) auto
      have "\<forall>j < n. xs ! j \<in> set oldHeaders"
      proof (intro allI impI)
        fix j assume "j < n"
        then have "Suc j < i" using n by simp
        with i(4) have "(x # xs) ! Suc j \<in> set oldHeaders" by blast
        then show "xs ! j \<in> set oldHeaders" by simp
      qed
      with i n show ?R by (intro exI [of _ n]) simp
    next
      assume ?R
      then obtain n where n: "n < length xs" "xs ! n = h" "h \<notin> set oldHeaders"
        "\<forall>j < n. xs ! j \<in> set oldHeaders"
        by blast
      have "\<forall>j < Suc n. (x # xs) ! j \<in> set oldHeaders"
      proof (intro allI impI)
        fix j assume "j < Suc n"
        then show "(x # xs) ! j \<in> set oldHeaders"
          using True n(4) by (cases j) auto
      qed
      with n show ?L by (intro exI [of _ "Suc n"]) simp
    qed
    with True Cons.IH show ?thesis by simp
  qed
qed

text \<open>
  The loop of \<open>detectNewSection\<close> over the labels the regular expression found: it
  returns the first label of the new text that is not a label of the old text, and null
  (\<open>None\<close>) exactly when every label of the new text is a label of the old text.
\<close>

lemma detectNewSection_first_new_label:
  "(detectNewSection oldContent newContent = Some h \<longleftrightarrow>
      (\<exists>i < length (headers newContent).
          headers newContent ! i = h \<and> h \<notin> set (headers oldContent) \<and>
          (\<forall>j < i. headers newContent ! j \<in> set (headers oldContent)))) \<and>
   (detectNewSection oldContent newContent = None \<longleftrightarrow>
      set (headers newContent) \<subseteq> set (headers oldContent))"
  unfolding detectNewSection_def
  using first_new_Some_iff [of "headers oldContent" "headers newContent" h]
    first_new_None_iff [of "headers oldContent" "headers newContent"]
  by simp

section \<open>The subscriber: \<^verbatim>\<open>useLatentLoop\<close>\<close>

text \<open>
  The React hook \<^verbatim>\<open>frontend/hooks/useLatentLoop.ts\<close> (the static pages
  \<^verbatim>\<open>static/js/api.js\<close> and \<^verbatim>\<open>static/js/rendering.js\<close> hold an older copy of the
  same handlers). Its state is the React state \<^verbatim>\<open>markdownContent\<close>,
  \<^verbatim>\<open>pendingUpdates\<close>, \<^verbatim>\<open>transcript\<close>, \<^verbatim>\<open>animatingSection\<close> and the refs
  \<^verbatim>\<open>updateQueueRef\<close>, \<^verbatim>\<open>isProcessingRef\<close>, \<^verbatim>\<open>displayedContentRef\<close>. The flags
  \<^verbatim>\<open>groqAvailable\<close>, \<^verbatim>\<open>geminiAvailable\<close> and \<^verbatim>\<open>connected\<close> are never read by the
  message handler and are left out.

  The types of \<^verbatim>\<open>frontend/lib/types.ts\<close>: an optional field is an \<open>option\<close>; a
  \<^verbatim>\<open>TranscriptItem\<close> is its text and its timestamp.
\<close>

type_synonym transcript_item = "jsstring \<times> jsstring"

record pending_update =
  pu_id :: jsstring
  pu_transcript :: jsstring
  pu_matched_section :: "jsstring option"
  pu_similarity :: real
  pu_suggested_action :: jsstring
  pu_reason :: jsstring
  pu_timestamp :: jsstring

record change_info =
  target_section :: "jsstring option"

datatype sse_type = TInit | TFileUpdated | TPendingUpdate | TPendingResolved | TOther

datatype pending_field = PendingList "pending_update list" | PendingOne pending_update

record sse_data =
  d_type :: sse_type
  d_content :: "jsstring option"
  d_transcript :: "transcript_item list option"
  d_pending :: "pending_field option"
  d_pending_id :: "jsstring option"
  d_section :: "jsstring option"
  d_change_info :: "change_info option"

text \<open>
  \<^verbatim>\<open>event.data\<close> of an SSE message, as \<^verbatim>\<open>JSON.parse\<close> sees it: text that does not
  parse (the call throws), or the parsed \<^verbatim>\<open>SSEData\<close>.
\<close>

datatype payload = Unparseable | Json sse_data

record update_item =
  oldContent :: jsstring
  newContent :: jsstring
  sectionName :: "jsstring option"
  timestamp :: nat

text \<open>
  The two callbacks the hook hands to \<^verbatim>\<open>setTimeout\<close>: the closure that ends an
  animation (it holds \<^verbatim>\<open>update.newContent\<close>), and \<^verbatim>\<open>processNextUpdate\<close>.
\<close>

datatype callback = AnimationDone jsstring | ProcessNext

text \<open>
  What the replay queue shows, as a history of the subscriber: the content swap of a
  drained update (\<^verbatim>\<open>setMarkdownContent(update.newContent)\<close>), the start of an animation
  (\<^verbatim>\<open>setAnimatingSection(update.sectionName)\<close>) and its end
  (\<^verbatim>\<open>setAnimatingSection(null)\<close>), each with the time of the call.
\<close>

datatype obs = Swap jsstring | AnimStart jsstring | AnimEnd

record subscriber =
  markdownContent :: jsstring
  pendingUpdates :: "pending_update list"
  transcript :: "transcript_item list"
  animatingSection :: "jsstring option"
  updateQueue :: "update_item list"
  isProcessing :: bool
  displayedContent :: jsstring
  timers :: "(nat \<times> callback) list"
  trace :: "(nat \<times> obs) list"

text \<open>
  \<^verbatim>\<open>x || null\<close>, \<^verbatim>\<open>x || ''\<close> and \<^verbatim>\<open>!x || x === 'None'\<close> on an optional string: the
  empty string is falsy.
\<close>

definition or_null :: "jsstring option \<Rightarrow> jsstring option" where
  "or_null x = (case x of None \<Rightarrow> None | Some v \<Rightarrow> if v = [] then None else Some v)"

definition or_empty :: "jsstring option \<Rightarrow> jsstring" where
  "or_empty x = (case x of None \<Rightarrow> [] | Some v \<Rightarrow> v)"

definition unknown :: "jsstring option \<Rightarrow> bool" where
  "unknown n = (case n of None \<Rightarrow> True | Some v \<Rightarrow> v = [] \<or> v = utf16 ''None'')"

text \<open>
  \<^verbatim>\<open>setTimeout(cb, delay)\<close> at time \<open>t\<close> (milliseconds): the callback is due at
  \<open>t + delay\<close>.
\<close>

definition setTimeout :: "nat \<Rightarrow> callback \<Rightarrow> nat \<Rightarrow> subscriber \<Rightarrow> subscriber" where
  "setTimeout t cb delay s = s\<lparr>timers := timers s @ [(t + delay, cb)]\<rparr>"

text \<open>
  \<^verbatim>\<open>isProcessingRef.current = false;
  displayedContentRef.current = update.newContent;
  if (updateQueueRef.current.length > 0) { setTimeout(processNextUpdate, 100); }\<close>

  The hook writes these three statements twice (in the animation's timeout and in the
  branch without a section); \<^verbatim>\<open>rendering.js\<close> names them \<^verbatim>\<open>finishProcessing\<close>.
\<close>

definition finishProcessing :: "nat \<Rightarrow> jsstring \<Rightarrow> subscriber \<Rightarrow> subscriber" where
  "finishProcessing t shown s =
     (let s' = s\<lparr>isProcessing := False, displayedContent := shown\<rparr>
      in if updateQueue s' \<noteq> [] then setTimeout t ProcessNext 100 s' else s')"

text \<open>
  \<^verbatim>\<open>setAnimatingSection(update.sectionName); setTimeout(() => { ... }, 500);\<close>
\<close>

definition animate :: "nat \<Rightarrow> jsstring \<Rightarrow> jsstring \<Rightarrow> subscriber \<Rightarrow> subscriber" where
  "animate t name shown s =
     setTimeout t (AnimationDone shown) 500
       (s\<lparr>animatingSection := Some name, trace := trace s @ [(t, AnimStart name)]\<rparr>)"

text \<open>
  \<^verbatim>\<open>if (isProcessingRef.current || updateQueueRef.current.length === 0) return;
  isProcessingRef.current = true;
  const update = updateQueueRef.current.shift()!;
  setMarkdownContent(update.newContent);
  if (update.sectionName) { ... } else { ... }\<close>
\<close>

definition processNextUpdate :: "nat \<Rightarrow> subscriber \<Rightarrow> subscriber" where
  "processNextUpdate t s =
     (if isProcessing s \<or> updateQueue s = [] then s
      else
        let update = hd (updateQueue s);
            s1 = s\<lparr>isProcessing := True,
                   updateQueue := tl (updateQueue s),
                   markdownContent := newContent update,
                   trace := trace s @ [(t, Swap (newContent update))]\<rparr>
        in case sectionName update of
             None \<Rightarrow> finishProcessing t (newContent update) s1
           | Some name \<Rightarrow>
               if name \<noteq> [] then animate t name (newContent update) s1
               else finishProcessing t (newContent update) s1)"

text \<open>
  A timeout fires at time \<open>t\<close>. The animation's closure:
  \<^verbatim>\<open>setAnimatingSection(null); isProcessingRef.current = false; ...\<close>
\<close>

definition run_callback :: "nat \<Rightarrow> callback \<Rightarrow> subscriber \<Rightarrow> subscriber" where
  "run_callback t cb s =
     (case cb of
        AnimationDone shown \<Rightarrow>
          finishProcessing t shown
            (s\<lparr>animatingSection := None, trace := trace s @ [(t, AnimEnd)]\<rparr>)
      | ProcessNext \<Rightarrow> processNextUpdate t s)"

definition scheduleFileUpdate ::
    "nat \<Rightarrow> jsstring \<Rightarrow> jsstring \<Rightarrow> jsstring option \<Rightarrow> subscriber \<Rightarrow> subscriber" where
  "scheduleFileUpdate t old new name s =
     processNextUpdate t
       (s\<lparr>updateQueue := updateQueue s @
            [\<lparr>oldContent = old, newContent = new, sectionName = name, timestamp = t\<rparr>]\<rparr>)"

text \<open>
  The section name \<^verbatim>\<open>handleFileUpdated\<close> computes:
  \<^verbatim>\<open>let sectionName = data.section || null;
  if (!sectionName || sectionName === 'None') sectionName = data.change_info?.target_section || null;
  if (!sectionName || sectionName === 'None') sectionName = detectNewSection(oldContent, newContent);\<close>
\<close>

definition target_of :: "sse_data \<Rightarrow> jsstring option" where
  "target_of data =
     (case d_change_info data of None \<Rightarrow> None | Some ci \<Rightarrow> target_section ci)"

definition resolveSection :: "sse_data \<Rightarrow> jsstring \<Rightarrow> jsstring \<Rightarrow> jsstring option" where
  "resolveSection data old new =
     (let n0 = or_null (d_section data);
          n1 = (if unknown n0
                then or_null (target_of data)
                else n0)
      in if unknown n1 then detectNewSection old new else n1)"

text \<open>
  \<^verbatim>\<open>const oldContent = displayedContentRef.current || markdownContent;
  const newContent = data.content || '';\<close>

  The handler reads \<^verbatim>\<open>markdownContent\<close> as the state holds it (React builds the
  handler anew whenever that state changes).
\<close>

definition handleFileUpdated :: "nat \<Rightarrow> sse_data \<Rightarrow> subscriber \<Rightarrow> subscriber" where
  "handleFileUpdated t data s =
     (let old = (if displayedContent s \<noteq> [] then displayedContent s else markdownContent s);
          new = or_empty (d_content data)
      in scheduleFileUpdate t old new (resolveSection data old new) s)"

text \<open>
  \<^verbatim>\<open>evtSource.onmessage\<close>: the whole body stands in \<^verbatim>\<open>try { ... } catch (e) {
  console.error('SSE parse error:', e); }\<close>, so a payload that does not parse changes
  nothing. A \<^verbatim>\<open>pending_update\<close> is taken only when \<^verbatim>\<open>data.pending\<close> is there and is
  not an array.
\<close>

definition onmessage :: "nat \<Rightarrow> payload \<Rightarrow> subscriber \<Rightarrow> subscriber" where
  "onmessage t p s =
     (case p of
        Unparseable \<Rightarrow> s
      | Json data \<Rightarrow>
          (case d_type data of
             TInit \<Rightarrow>
               s\<lparr>markdownContent := or_empty (d_content data),
                 displayedContent := or_empty (d_content data),
                 pendingUpdates :=
                   (case d_pending data of Some (PendingList ps) \<Rightarrow> ps | _ \<Rightarrow> []),
                 transcript :=
                   (case d_transcript data of Some tr \<Rightarrow> tr | None \<Rightarrow> transcript s)\<rparr>
           | TFileUpdated \<Rightarrow> handleFileUpdated t data s
           | TPendingUpdate \<Rightarrow>
               (case d_pending data of
                  Some (PendingOne p) \<Rightarrow> s\<lparr>pendingUpdates := pendingUpdates s @ [p]\<rparr>
                | _ \<Rightarrow> s)
           | TPendingResolved \<Rightarrow>
               s\<lparr>pendingUpdates :=
                   filter (\<lambda>p. Some (pu_id p) \<noteq> d_pending_id data) (pendingUpdates s)\<rparr>
           | TOther \<Rightarrow> s))"

subsection \<open>Runs of the subscriber\<close>

text \<open>
  The browser delivers one event at a time: an SSE message at time \<open>t\<close>, or the
  \<open>k\<close>-th pending timeout, at a time \<open>t\<close> not before it is due (a timeout may fire
  late, and the order among due timeouts is left open). Time never runs backwards.
  \<open>run\<close> is \<open>None\<close> for a sequence that is no run. \<^verbatim>\<open>loadInitialState\<close> writes
  the content, the pending list and the transcript only; a run starts from any state
  it leaves.
\<close>

datatype event = Message nat payload | Timeout nat nat

definition fire :: "nat \<Rightarrow> nat \<Rightarrow> subscriber \<Rightarrow> subscriber" where
  "fire t k s =
     run_callback t (snd (timers s ! k))
       (s\<lparr>timers := take k (timers s) @ drop (Suc k) (timers s)\<rparr>)"

fun step :: "nat \<times> subscriber \<Rightarrow> event \<Rightarrow> (nat \<times> subscriber) option" where
  "step (clock, s) (Message t p) =
     (if clock \<le> t then Some (t, onmessage t p s) else None)"
| "step (clock, s) (Timeout t k) =
     (if clock \<le> t \<and> k < length (timers s) \<and> fst (timers s ! k) \<le> t
      then Some (t, fire t k s) else None)"

fun run :: "nat \<times> subscriber \<Rightarrow> event list \<Rightarrow> (nat \<times> subscriber) option" where
  "run w [] = Some w"
| "run w (e # es) = (case step w e of None \<Rightarrow> None | Some w' \<Rightarrow> run w' es)"

section \<open>The replay queue\<close>

text \<open>
  \<open>replay a tr\<close> reads a history from a state with (\<open>a\<close>) or without an animation in
  progress: a swap or an animation start is allowed only when no animation is in
  progress, an animation end only when one is. It returns the state after the history,
  or \<open>None\<close> where the history breaks the rule.
\<close>

fun replay :: "bool \<Rightarrow> obs list \<Rightarrow> bool option" where
  "replay a [] = Some a"
| "replay a (Swap c # r) = (if a then None else replay False r)"
| "replay a (AnimStart n # r) = (if a then None else replay True r)"
| "replay a (AnimEnd # r) = (if a then replay False r else None)"

definition serial :: "(nat \<times> obs) list \<Rightarrow> bool" where
  "serial tr = (replay False (map snd tr) \<noteq> None)"

fun swapped :: "(nat \<times> obs) list \<Rightarrow> jsstring list" where
  "swapped [] = []"
| "swapped ((t, Swap c) # r) = c # swapped r"
| "swapped ((t, AnimStart n) # r) = swapped r"
| "swapped ((t, AnimEnd) # r) = swapped r"

fun arrivals :: "event list \<Rightarrow> jsstring list" where
  "arrivals [] = []"
| "arrivals (Message t (Json data) # es) =
     (if d_type data = TFileUpdated then or_empty (d_content data) # arrivals es
      else arrivals es)"
| "arrivals (Message t Unparseable # es) = arrivals es"
| "arrivals (Timeout t k # es) = arrivals es"

definition idle :: "subscriber \<Rightarrow> bool" where
  "idle s = (\<not> isProcessing s \<and> updateQueue s = [] \<and> timers s = [] \<and> trace s = [] \<and>
             animatingSection s = None)"

fun is_anim :: "nat \<times> callback \<Rightarrow> bool" where
  "is_anim (d, AnimationDone c) = True"
| "is_anim (d, ProcessNext) = False"

definition queue_inv :: "nat \<Rightarrow> subscriber \<Rightarrow> bool" where
  "queue_inv t s =
     (replay False (map snd (trace s)) = Some (isProcessing s) \<and>
      length (filter is_anim (timers s)) = (if isProcessing s then 1 else 0) \<and>
      (\<forall>e \<in> set (trace s). fst e \<le> t) \<and>
      sorted (map fst (trace s)))"

lemma replay_append:
  "replay a (xs @ ys) = (case replay a xs of None \<Rightarrow> None | Some b \<Rightarrow> replay b ys)"
  by (induction a xs rule: replay.induct) auto

lemma swapped_append: "swapped (xs @ ys) = swapped xs @ swapped ys"
  by (induction xs rule: swapped.induct) auto

lemma queue_inv_mono: "queue_inv t s \<Longrightarrow> t \<le> t' \<Longrightarrow> queue_inv t' s"
  by (auto simp: queue_inv_def)

lemma finishProcessing_facts:
  "trace (finishProcessing t c s) = trace s"
  "isProcessing (finishProcessing t c s) = False"
  "filter is_anim (timers (finishProcessing t c s)) = filter is_anim (timers s)"
  "updateQueue (finishProcessing t c s) = updateQueue s"
  by (simp_all add: finishProcessing_def setTimeout_def Let_def)

lemma animate_facts:
  "trace (animate t n c s) = trace s @ [(t, AnimStart n)]"
  "isProcessing (animate t n c s) = isProcessing s"
  "filter is_anim (timers (animate t n c s)) = filter is_anim (timers s) @ [(t + 500, AnimationDone c)]"
  "updateQueue (animate t n c s) = updateQueue s"
  by (simp_all add: animate_def setTimeout_def)

lemma sorted_snoc_le:
  "sorted (map fst tr) \<Longrightarrow> \<forall>e \<in> set tr. fst e \<le> t \<Longrightarrow> sorted (map fst (tr @ [(t, x)]))"
  by (simp add: sorted_append)

lemma processNextUpdate_inv:
  assumes "queue_inv t s"
  shows "queue_inv t (processNextUpdate t s)"
proof (cases "isProcessing s \<or> updateQueue s = []")
  case True
  with assms show ?thesis by (simp add: processNextUpdate_def)
next
  case False
  then have np: "\<not> isProcessing s" and ne: "updateQueue s \<noteq> []" by auto
  from assms np have r: "replay False (map snd (trace s)) = Some False"
    and f: "filter is_anim (timers s) = []"
    and le: "\<forall>e \<in> set (trace s). fst e \<le> t" and so: "sorted (map fst (trace s))"
    by (auto simp: queue_inv_def)
  define u where "u = hd (updateQueue s)"
  define s1 where "s1 = s\<lparr>isProcessing := True, updateQueue := tl (updateQueue s),
      markdownContent := newContent u, trace := trace s @ [(t, Swap (newContent u))]\<rparr>"
  have s1: "trace s1 = trace s @ [(t, Swap (newContent u))]" "timers s1 = timers s"
    by (simp_all add: s1_def)
  have r1: "replay False (map snd (trace s1)) = Some False"
    by (simp add: s1 replay_append r)
  have le1: "\<forall>e \<in> set (trace s1). fst e \<le> t" using le by (auto simp: s1)
  have so1: "sorted (map fst (trace s1))" unfolding s1 using so le by (rule sorted_snoc_le)
  have fin: "queue_inv t (finishProcessing t (newContent u) s1)"
    using r1 le1 so1 f by (simp add: queue_inv_def finishProcessing_facts s1)
  have ani: "queue_inv t (animate t n (newContent u) s1)" for n
  proof -
    let ?a = "animate t n (newContent u) s1"
    have ra: "replay False (map snd (trace ?a)) = Some True"
      by (simp add: animate_facts(1) replay_append r1)
    have fa: "length (filter is_anim (timers ?a)) = 1"
      by (simp add: animate_facts(3) s1(2) f)
    have la: "\<forall>e \<in> set (trace ?a). fst e \<le> t"
      using le1 by (auto simp: animate_facts(1))
    have sa: "sorted (map fst (trace ?a))"
      unfolding animate_facts(1) using so1 le1 by (rule sorted_snoc_le)
    have pa: "isProcessing ?a" by (simp add: animate_facts(2) s1_def)
    from ra fa la sa pa show ?thesis by (simp add: queue_inv_def)
  qed
  have "processNextUpdate t s =
      (case sectionName u of None \<Rightarrow> finishProcessing t (newContent u) s1
       | Some name \<Rightarrow> if name \<noteq> [] then animate t name (newContent u) s1
                      else finishProcessing t (newContent u) s1)"
    unfolding processNextUpdate_def Let_def u_def s1_def using False by simp
  with fin ani show ?thesis by (simp split: option.split)
qed

lemma queue_inv_frame:
  assumes "queue_inv t s" "trace s' = trace s" "isProcessing s' = isProcessing s"
    "timers s' = timers s"
  shows "queue_inv t s'"
  using assms by (simp add: queue_inv_def)

lemma onmessage_inv:
  assumes "queue_inv t s"
  shows "queue_inv t (onmessage t p s)"
proof (cases p)
  case Unparseable
  with assms show ?thesis by (simp add: onmessage_def)
next
  case (Json data)
  show ?thesis
  proof (cases "d_type data")
    case TFileUpdated
    have "queue_inv t (s\<lparr>updateQueue := q\<rparr>)" for q
      using assms by (rule queue_inv_frame) simp_all
    then show ?thesis using Json TFileUpdated
      by (simp add: onmessage_def handleFileUpdated_def scheduleFileUpdate_def Let_def
          processNextUpdate_inv)
  next
    case TInit
    with Json show ?thesis
      by (auto simp: onmessage_def intro!: queue_inv_frame [OF assms])
  next
    case TPendingUpdate
    with Json assms show ?thesis
      by (auto simp: onmessage_def split: option.split pending_field.split
          intro!: queue_inv_frame [OF assms])
  next
    case TPendingResolved
    with Json show ?thesis
      by (auto simp: onmessage_def intro!: queue_inv_frame [OF assms])
  next
    case TOther
    with Json assms show ?thesis by (simp add: onmessage_def)
  qed
qed

lemma filter_remove_nth:
  assumes "k < length xs"
  shows "length (filter P xs) =
         length (filter P (take k xs @ drop (Suc k) xs)) + (if P (xs ! k) then 1 else 0)"
proof -
  have "xs = take k xs @ xs ! k # drop (Suc k) xs"
    using assms by (rule id_take_nth_drop)
  then have "filter P xs = filter P (take k xs @ xs ! k # drop (Suc k) xs)" by simp
  then show ?thesis by (simp split: if_splits)
qed

lemma fire_inv:
  assumes inv: "queue_inv t s" and k: "k < length (timers s)"
  shows "queue_inv t (fire t k s)"
proof -
  define s0 where "s0 = s\<lparr>timers := take k (timers s) @ drop (Suc k) (timers s)\<rparr>"
  obtain d cb where tk: "timers s ! k = (d, cb)" by (cases "timers s ! k")
  have cnt: "length (filter is_anim (timers s)) =
      length (filter is_anim (timers s0)) + (if is_anim (d, cb) then 1 else 0)"
    using filter_remove_nth [OF k, of is_anim] by (simp add: s0_def tk)
  from inv have r: "replay False (map snd (trace s)) = Some (isProcessing s)"
    and c: "length (filter is_anim (timers s)) = (if isProcessing s then 1 else 0)"
    and le: "\<forall>e \<in> set (trace s). fst e \<le> t" and so: "sorted (map fst (trace s))"
    by (auto simp: queue_inv_def)
  have f: "fire t k s = run_callback t cb s0"
    by (simp add: fire_def s0_def tk)
  show ?thesis
  proof (cases cb)
    case ProcessNext
    with cnt c have "length (filter is_anim (timers s0)) = (if isProcessing s then 1 else 0)"
      by simp
    with r le so have "queue_inv t s0" by (simp add: queue_inv_def s0_def)
    then show ?thesis unfolding f ProcessNext
      by (simp add: run_callback_def processNextUpdate_inv)
  next
    case (AnimationDone shown)
    with cnt c have p: "isProcessing s" and z: "filter is_anim (timers s0) = []"
      by (auto split: if_splits)
    define s1 where "s1 = s0\<lparr>animatingSection := None, trace := trace s0 @ [(t, AnimEnd)]\<rparr>"
    have t1: "trace s1 = trace s @ [(t, AnimEnd)]" "timers s1 = timers s0"
      by (simp_all add: s1_def s0_def)
    have "sorted (map fst (trace s @ [(t, AnimEnd)]))" using so le by (rule sorted_snoc_le)
    then have "queue_inv t (finishProcessing t shown s1)"
      using r p z le by (simp add: queue_inv_def finishProcessing_facts t1 replay_append)
    then show ?thesis unfolding f AnimationDone
      by (simp add: run_callback_def s1_def)
  qed
qed

lemma step_inv:
  assumes "queue_inv c s" "step (c, s) e = Some (c', s')"
  shows "queue_inv c' s'"
proof (cases e)
  case (Message t p)
  with assms(2) have "c \<le> t" and "c' = t" and s': "s' = onmessage t p s"
    by (auto split: if_splits)
  with assms(1) show ?thesis by (auto intro: onmessage_inv queue_inv_mono)
next
  case (Timeout t k)
  with assms(2) have "c \<le> t" "c' = t" "k < length (timers s)" "s' = fire t k s"
    by (auto split: if_splits)
  with assms(1) show ?thesis by (auto intro: fire_inv queue_inv_mono)
qed

lemma run_inv:
  "queue_inv (fst w) (snd w) \<Longrightarrow> run w es = Some w' \<Longrightarrow> queue_inv (fst w') (snd w')"
proof (induction es arbitrary: w)
  case Nil
  then show ?case by simp
next
  case (Cons e es)
  from Cons.prems(2) obtain w1 where w1: "step w e = Some w1" and r: "run w1 es = Some w'"
    by (auto split: option.splits)
  from w1 Cons.prems(1) have "queue_inv (fst w1) (snd w1)"
    using step_inv [of "fst w" "snd w" e "fst w1" "snd w1"] by simp
  with r show ?case by (rule Cons.IH [rotated])
qed

definition animating :: "(nat \<times> obs) list \<Rightarrow> bool" where
  "animating tr = (replay False (map snd tr) = Some True)"

lemma processNextUpdate_fifo:
  "swapped (trace (processNextUpdate t s)) @ map newContent (updateQueue (processNextUpdate t s))
   = swapped (trace s) @ map newContent (updateQueue s)"
proof (cases "isProcessing s \<or> updateQueue s = []")
  case True
  then show ?thesis by (simp add: processNextUpdate_def)
next
  case False
  then obtain u q where q: "updateQueue s = u # q" by (cases "updateQueue s") auto
  with False show ?thesis
    by (simp add: processNextUpdate_def Let_def finishProcessing_facts animate_facts
        swapped_append split: option.split)
qed

lemma onmessage_fifo:
  "swapped (trace (onmessage t p s)) @ map newContent (updateQueue (onmessage t p s))
   = swapped (trace s) @ map newContent (updateQueue s) @ arrivals [Message t p]"
proof (cases p)
  case Unparseable
  then show ?thesis by (simp add: onmessage_def)
next
  case (Json data)
  show ?thesis
  proof (cases "d_type data")
    case TFileUpdated
    with Json show ?thesis
      by (simp add: onmessage_def handleFileUpdated_def scheduleFileUpdate_def Let_def
          processNextUpdate_fifo)
  qed (use Json in \<open>auto simp: onmessage_def split: option.split pending_field.split\<close>)
qed

lemma fire_fifo:
  "swapped (trace (fire t k s)) @ map newContent (updateQueue (fire t k s))
   = swapped (trace s) @ map newContent (updateQueue s)"
proof (cases "snd (timers s ! k)")
  case (AnimationDone shown)
  then show ?thesis
    by (simp add: fire_def run_callback_def finishProcessing_facts swapped_append)
next
  case ProcessNext
  then show ?thesis
    by (simp add: fire_def run_callback_def processNextUpdate_fifo)
qed

lemma step_fifo:
  assumes "step (c, s) e = Some (c', s')"
  shows "swapped (trace s') @ map newContent (updateQueue s')
         = swapped (trace s) @ map newContent (updateQueue s) @ arrivals [e]"
proof (cases e)
  case (Message t p)
  with assms have "s' = onmessage t p s" by (auto split: if_splits)
  with Message show ?thesis by (simp only: onmessage_fifo)
next
  case (Timeout t k)
  with assms have "s' = fire t k s" by (auto split: if_splits)
  with Timeout show ?thesis by (simp add: fire_fifo)
qed

lemma arrivals_Cons: "arrivals (e # es) = arrivals [e] @ arrivals es"
  by (cases "(e # es)" rule: arrivals.cases) auto

lemma run_fifo:
  "run w es = Some w' \<Longrightarrow>
   swapped (trace (snd w')) @ map newContent (updateQueue (snd w'))
   = swapped (trace (snd w)) @ map newContent (updateQueue (snd w)) @ arrivals es"
proof (induction es arbitrary: w)
  case Nil
  then show ?case by simp
next
  case (Cons e es)
  from Cons.prems obtain w1 where w1: "step w e = Some w1" and r: "run w1 es = Some w'"
    by (auto split: option.splits)
  from w1 have "swapped (trace (snd w1)) @ map newContent (updateQueue (snd w1))
      = swapped (trace (snd w)) @ map newContent (updateQueue (snd w)) @ arrivals [e]"
    using step_fifo [of "fst w" "snd w" e "fst w1" "snd w1"] by simp
  with Cons.IH [OF r] show ?case by (simp add: arrivals_Cons [of e es])
qed

lemma waits_while_processing:
  "isProcessing s \<Longrightarrow> trace (onmessage t p s) = trace s"
  by (auto simp: onmessage_def handleFileUpdated_def scheduleFileUpdate_def Let_def
      processNextUpdate_def split: payload.split sse_type.split option.split pending_field.split)

definition fresh :: "jsstring \<Rightarrow> subscriber" where
  "fresh c =
     \<lparr>markdownContent = c, pendingUpdates = [], transcript = [], animatingSection = None,
      updateQueue = [], isProcessing = False, displayedContent = c, timers = [], trace = []\<rparr>"

definition file_updated :: "jsstring \<Rightarrow> jsstring \<Rightarrow> payload" where
  "file_updated c n =
     Json \<lparr>d_type = TFileUpdated, d_content = Some c, d_transcript = None, d_pending = None,
           d_pending_id = None, d_section = Some n, d_change_info = None\<rparr>"

lemmas queue_eval =
  fresh_def file_updated_def onmessage_def handleFileUpdated_def scheduleFileUpdate_def
  processNextUpdate_def finishProcessing_def animate_def setTimeout_def fire_def
  run_callback_def resolveSection_def or_null_def or_empty_def unknown_def utf16_def Let_def

lemma example_run:
  "run (0, fresh (utf16 ''# T''))
     [Message 0 (file_updated (utf16 ''a'') (utf16 ''A'')),
      Message 100 (file_updated (utf16 ''b'') (utf16 ''B'')),
      Timeout 500 0,
      Timeout 600 0,
      Timeout 1100 0] \<noteq> None"
  by (simp add: queue_eval)


text \<open>
  Claim C1. For every subscriber and every sequence of messages and timeouts it sees,
  starting idle: the history of the replay queue is serial (a content swap or an animation
  start happens only when no animation is in progress, so the window of an animation
  ends before the next update is swapped in or animated, and two sections are never
  animated at once); the times in the history never decrease; the updates are drained in
  arrival order (the contents swapped in so far, followed by the contents still queued,
  are the contents of the \<^verbatim>\<open>file_updated\<close> messages, in the order they arrived); and
  while an animation is in progress a message adds nothing to the history: a later
  update waits in the queue.
\<close>

theorem replay_queue_drains_serially:
  assumes "idle s0" and "run (t0, s0) evs = Some (t, s)"
  shows "serial (trace s) \<and>
         sorted (map fst (trace s)) \<and>
         swapped (trace s) @ map newContent (updateQueue s) = arrivals evs \<and>
         (animating (trace s) \<longrightarrow> (\<forall>t' p. trace (onmessage t' p s) = trace s))"
proof -
  from assms(1) have "queue_inv (fst (t0, s0)) (snd (t0, s0))"
    by (simp add: idle_def queue_inv_def)
  from run_inv [OF this assms(2)] have inv: "queue_inv t s" by simp
  then have 1: "serial (trace s)" and 2: "sorted (map fst (trace s))"
    by (simp_all add: queue_inv_def serial_def)
  from run_fifo [OF assms(2)] assms(1)
  have 3: "swapped (trace s) @ map newContent (updateQueue s) = arrivals evs"
    by (simp add: idle_def)
  from inv have "animating (trace s) \<Longrightarrow> isProcessing s"
    by (simp add: queue_inv_def animating_def)
  then have 4: "animating (trace s) \<longrightarrow> (\<forall>t' p. trace (onmessage t' p s) = trace s)"
    by (auto simp: waits_while_processing)
  from 1 2 3 4 show ?thesis by blast
qed

theorem replay_queue_drains_serially_witness:
  "\<exists>t s. run (0, fresh (utf16 ''# T''))
            [Message 0 (file_updated (utf16 ''a'') (utf16 ''A'')),
             Message 100 (file_updated (utf16 ''b'') (utf16 ''B'')),
             Timeout 500 0, Timeout 600 0, Timeout 1100 0] = Some (t, s) \<and>
          serial (trace s) \<and> sorted (map fst (trace s)) \<and>
          swapped (trace s) @ map newContent (updateQueue s) = [utf16 ''a'', utf16 ''b'']"
proof -
  let ?evs = "[Message 0 (file_updated (utf16 ''a'') (utf16 ''A'')),
             Message 100 (file_updated (utf16 ''b'') (utf16 ''B'')),
             Timeout 500 0, Timeout 600 0, Timeout 1100 0]"
  obtain t s where r: "run (0, fresh (utf16 ''# T'')) ?evs = Some (t, s)"
    using example_run by fastforce
  have i: "idle (fresh (utf16 ''# T''))" by (simp add: idle_def fresh_def)
  have a: "arrivals ?evs = [utf16 ''a'', utf16 ''b'']"
    by (simp add: file_updated_def or_empty_def)
  from replay_queue_drains_serially [OF i r] r a show ?thesis by auto
qed

section \<open>Draining one update\<close>

text \<open>
  \<^verbatim>\<open>if (update.sectionName)\<close>: a string is truthy when it is not empty.
\<close>

definition truthy :: "jsstring option \<Rightarrow> bool" where
  "truthy n = (case n of None \<Rightarrow> False | Some v \<Rightarrow> v \<noteq> [])"

lemma drain_with_heading:
  assumes "\<not> isProcessing s" "updateQueue s = u # q" "sectionName u = Some n" "n \<noteq> []"
  shows "markdownContent (processNextUpdate t s) = newContent u \<and>
         animatingSection (processNextUpdate t s) = Some n \<and>
         timers (processNextUpdate t s) = timers s @ [(t + 500, AnimationDone (newContent u))] \<and>
         trace (processNextUpdate t s) = trace s @ [(t, Swap (newContent u)), (t, AnimStart n)] \<and>
         isProcessing (processNextUpdate t s) \<and>
         updateQueue (processNextUpdate t s) = q \<and>
         displayedContent (processNextUpdate t s) = displayedContent s"
  using assms by (simp add: processNextUpdate_def Let_def animate_def setTimeout_def)

lemma drain_without_heading:
  assumes "\<not> isProcessing s" "updateQueue s = u # q" "\<not> truthy (sectionName u)"
  shows "markdownContent (processNextUpdate t s) = newContent u \<and>
         animatingSection (processNextUpdate t s) = animatingSection s \<and>
         trace (processNextUpdate t s) = trace s @ [(t, Swap (newContent u))] \<and>
         filter is_anim (timers (processNextUpdate t s)) = filter is_anim (timers s) \<and>
         \<not> isProcessing (processNextUpdate t s) \<and>
         displayedContent (processNextUpdate t s) = newContent u"
  using assms
  by (auto simp: processNextUpdate_def Let_def finishProcessing_def setTimeout_def truthy_def
      split: option.splits)

lemma animation_expiry:
  "animatingSection (run_callback t (AnimationDone shown) s) = None \<and>
   \<not> isProcessing (run_callback t (AnimationDone shown) s) \<and>
   displayedContent (run_callback t (AnimationDone shown) s) = shown \<and>
   trace (run_callback t (AnimationDone shown) s) = trace s @ [(t, AnimEnd)] \<and>
   timers (run_callback t (AnimationDone shown) s) =
     timers s @ (if updateQueue s \<noteq> [] then [(t + 100, ProcessNext)] else [])"
  by (simp add: run_callback_def finishProcessing_def setTimeout_def Let_def)

text \<open>
  Claim C2. For every drained update the content is swapped before the animation starts,
  a known heading is animated for 500 ms, the content is recorded as the baseline when
  the animation ends (\<open>drain_with_heading\<close>, \<open>animation_expiry\<close>), and, if more updates
  are queued, the next drain begins only after a gap of 100 ms. The code does not keep
  the gap: \<^verbatim>\<open>scheduleFileUpdate\<close> calls \<^verbatim>\<open>processNextUpdate\<close> at once, so a message
  that arrives within the gap drains the head of the queue on the spot. In the run below
  the animation of \<open>A\<close> ends at 500, the timeout for the next drain is due at 600, and
  the message at 550 swaps in and animates the queued update \<open>B\<close> at 550.
\<close>

theorem inter_item_gap_skipped:
  "map_option (\<lambda>w. (trace (snd w), timers (snd w)))
     (run (0, fresh (utf16 ''# T''))
        [Message 0 (file_updated (utf16 ''a'') (utf16 ''A'')),
         Message 100 (file_updated (utf16 ''b'') (utf16 ''B'')),
         Timeout 500 0,
         Message 550 (file_updated (utf16 ''c'') (utf16 ''C''))])
   = Some ([(0, Swap (utf16 ''a'')), (0, AnimStart (utf16 ''A'')), (500, AnimEnd),
            (550, Swap (utf16 ''b'')), (550, AnimStart (utf16 ''B''))],
           [(600, ProcessNext), (1050, AnimationDone (utf16 ''b''))])"
  by (simp add: queue_eval)

section \<open>The section to animate\<close>

text \<open>
  The resolution order as claim C3 words it, to be compared with \<open>resolveSection\<close>:
  the \<^verbatim>\<open>section\<close> field when present and not \<^verbatim>\<open>'None'\<close>, otherwise
  \<^verbatim>\<open>change_info.target_section\<close> when present, otherwise the diff. (A field is taken
  to be present when it holds a non-empty string.)
\<close>

definition claimed_section :: "sse_data \<Rightarrow> jsstring \<Rightarrow> jsstring \<Rightarrow> jsstring option" where
  "claimed_section data old new =
     (if truthy (d_section data) \<and> d_section data \<noteq> Some (utf16 ''None'') then d_section data
      else if truthy (target_of data) then target_of data
      else detectNewSection old new)"

definition target_None :: sse_data where
  "target_None =
     \<lparr>d_type = TFileUpdated, d_content = Some (utf16 ''# A''), d_transcript = None,
      d_pending = None, d_pending_id = None, d_section = None,
      d_change_info = Some \<lparr>target_section = Some (utf16 ''None'')\<rparr>\<rparr>"

lemma headers_Nil: "headers [] = []"
  by (simp add: headers_def)

lemma headers_example_one: "headers (utf16 ''# A'') = [utf16 ''A'']"
  by (simp add: regex_eval)

text \<open>
  Claim C3 as stated fails: with no \<^verbatim>\<open>section\<close> and \<^verbatim>\<open>change_info.target_section\<close>
  the string \<^verbatim>\<open>'None'\<close>, the claim's order gives \<^verbatim>\<open>'None'\<close>, and the code goes on to
  the diff (which finds no new heading here).
\<close>

theorem target_section_None_counterexample:
  "claimed_section target_None [] [] = Some (utf16 ''None'') \<and>
   resolveSection target_None [] [] = None"
  by (simp add: claimed_section_def resolveSection_def target_None_def target_of_def
      truthy_def or_null_def unknown_def detectNewSection_def headers_Nil Let_def)
    (simp add: utf16_def)

text \<open>
  Claim C3, amended. The heading to animate is the event's \<^verbatim>\<open>section\<close> when it is a
  non-empty string other than \<^verbatim>\<open>'None'\<close>; otherwise \<^verbatim>\<open>change_info.target_section\<close>
  when it is a non-empty string other than \<^verbatim>\<open>'None'\<close>; otherwise the heading
  \<open>detectNewSection\<close> finds between the displayed content and the new content. The
  update is queued with that name, and an update whose name is null or empty is drained
  by the content swap alone: no animation starts and no animation timeout is set.
\<close>

theorem section_resolution_order:
  "resolveSection data old new =
     (if \<not> unknown (d_section data) then d_section data
      else if \<not> unknown (target_of data) then target_of data
      else detectNewSection old new) \<and>
   handleFileUpdated t data s =
     (let old' = (if displayedContent s \<noteq> [] then displayedContent s else markdownContent s);
          new' = or_empty (d_content data)
      in processNextUpdate t
           (s\<lparr>updateQueue := updateQueue s @
                [\<lparr>oldContent = old', newContent = new',
                  sectionName = resolveSection data old' new', timestamp = t\<rparr>]\<rparr>)) \<and>
   (\<not> isProcessing s \<longrightarrow> updateQueue s = u # q \<longrightarrow> \<not> truthy (sectionName u) \<longrightarrow>
      markdownContent (processNextUpdate t s) = newContent u \<and>
      animatingSection (processNextUpdate t s) = animatingSection s \<and>
      trace (processNextUpdate t s) = trace s @ [(t, Swap (newContent u))] \<and>
      filter is_anim (timers (processNextUpdate t s)) = filter is_anim (timers s) \<and>
      \<not> isProcessing (processNextUpdate t s))"
proof -
  have 1: "resolveSection data old new =
     (if \<not> unknown (d_section data) then d_section data
      else if \<not> unknown (target_of data) then target_of data
      else detectNewSection old new)"
    by (auto simp: resolveSection_def Let_def unknown_def or_null_def split: option.splits)
  have 2: "handleFileUpdated t data s =
     (let old' = (if displayedContent s \<noteq> [] then displayedContent s else markdownContent s);
          new' = or_empty (d_content data)
      in processNextUpdate t
           (s\<lparr>updateQueue := updateQueue s @
                [\<lparr>oldContent = old', newContent = new',
                  sectionName = resolveSection data old' new', timestamp = t\<rparr>]\<rparr>))"
    by (simp add: handleFileUpdated_def scheduleFileUpdate_def Let_def)
  from 1 2 drain_without_heading [of s u q t] show ?thesis by blast
qed

theorem section_resolution_order_witness:
  "resolveSection target_None [] (utf16 ''# A'') = Some (utf16 ''A'') \<and>
   markdownContent (processNextUpdate 7
      ((fresh [])\<lparr>updateQueue := [\<lparr>oldContent = [], newContent = utf16 ''x'',
          sectionName = None, timestamp = 7\<rparr>]\<rparr>)) = utf16 ''x'' \<and>
   trace (processNextUpdate 7
      ((fresh [])\<lparr>updateQueue := [\<lparr>oldContent = [], newContent = utf16 ''x'',
          sectionName = None, timestamp = 7\<rparr>]\<rparr>)) = [(7, Swap (utf16 ''x''))]"
proof -
  let ?u = "\<lparr>oldContent = [], newContent = utf16 ''x'', sectionName = None, timestamp = 7\<rparr>"
  let ?s = "(fresh [])\<lparr>updateQueue := [?u]\<rparr>"
  have h: "\<not> isProcessing ?s" "updateQueue ?s = ?u # []" "\<not> truthy (sectionName ?u)"
    by (simp_all add: fresh_def truthy_def)
  have d: "detectNewSection [] (utf16 ''# A'') = Some (utf16 ''A'')"
    unfolding detectNewSection_def headers_Nil headers_example_one by simp
  have u: "unknown (d_section target_None)" "unknown (target_of target_None)"
    by (simp_all add: target_None_def target_of_def unknown_def)
  from section_resolution_order [of target_None "[]" "utf16 ''# A''" 7 ?s ?u "[]"] h d u
  show ?thesis by (simp add: fresh_def)
qed

section \<open>Messages that do not parse, and the pending list\<close>

text \<open>
  Claim C8. A message whose payload is not parseable JSON leaves the whole state of the
  subscriber as it is, and the run goes on with the events after it as if the message
  had not come.
\<close>

theorem unparseable_message_dropped:
  "onmessage t Unparseable s = s \<and>
   run (c, s) (Message t Unparseable # es) = (if c \<le> t then run (t, s) es else None)"
  by (simp add: onmessage_def)

theorem unparseable_message_dropped_witness:
  "run (0, fresh (utf16 ''# T''))
     [Message 3 Unparseable, Message 5 (file_updated (utf16 ''a'') (utf16 ''A''))]
   = run (3, fresh (utf16 ''# T'')) [Message 5 (file_updated (utf16 ''a'') (utf16 ''A''))] \<and>
   map_option (markdownContent \<circ> snd)
     (run (0, fresh (utf16 ''# T''))
        [Message 3 Unparseable, Message 5 (file_updated (utf16 ''a'') (utf16 ''A''))])
   = Some (utf16 ''a'')"
proof -
  have "map_option (markdownContent \<circ> snd)
      (run (3, fresh (utf16 ''# T'')) [Message 5 (file_updated (utf16 ''a'') (utf16 ''A''))])
    = Some (utf16 ''a'')"
    by (simp add: queue_eval)
  with unparseable_message_dropped [of 3 "fresh (utf16 ''# T'')" 0
      "[Message 5 (file_updated (utf16 ''a'') (utf16 ''A''))]"]
  show ?thesis by simp
qed

text \<open>
  Claim C9. A \<^verbatim>\<open>pending_update\<close> message appends the pending update it carries to the
  end of the pending list, and a \<^verbatim>\<open>pending_resolved\<close> message keeps, in their order,
  exactly the entries whose id is not the message's \<^verbatim>\<open>pending_id\<close>; every other part of
  the state (content, transcript, queue, timers, history) is the same after either.
\<close>

theorem pending_events_change_only_pending_list:
  "(d_type data = TPendingUpdate \<longrightarrow> d_pending data = Some (PendingOne p) \<longrightarrow>
      onmessage t (Json data) s = s\<lparr>pendingUpdates := pendingUpdates s @ [p]\<rparr>) \<and>
   (d_type data = TPendingResolved \<longrightarrow>
      onmessage t (Json data) s =
        s\<lparr>pendingUpdates :=
            filter (\<lambda>q. Some (pu_id q) \<noteq> d_pending_id data) (pendingUpdates s)\<rparr>)"
  by (simp add: onmessage_def)

definition pending_example :: "jsstring \<Rightarrow> pending_update" where
  "pending_example i =
     \<lparr>pu_id = i, pu_transcript = utf16 ''maybe tiktok'', pu_matched_section = None,
      pu_similarity = 0, pu_suggested_action = utf16 ''create'',
      pu_reason = utf16 ''hedge'', pu_timestamp = utf16 ''t''\<rparr>"

definition pending_message :: "sse_type \<Rightarrow> pending_field option \<Rightarrow> jsstring option \<Rightarrow> sse_data" where
  "pending_message ty p i =
     \<lparr>d_type = ty, d_content = None, d_transcript = None, d_pending = p,
      d_pending_id = i, d_section = None, d_change_info = None\<rparr>"

theorem pending_events_change_only_pending_list_witness:
  "onmessage 1
     (Json (pending_message TPendingUpdate (Some (PendingOne (pending_example (utf16 ''c'')))) None))
     ((fresh [])\<lparr>pendingUpdates := [pending_example (utf16 ''a''), pending_example (utf16 ''b'')]\<rparr>)
   = (fresh [])\<lparr>pendingUpdates := [pending_example (utf16 ''a''), pending_example (utf16 ''b''),
                                    pending_example (utf16 ''c'')]\<rparr> \<and>
   onmessage 2 (Json (pending_message TPendingResolved None (Some (utf16 ''a''))))
     ((fresh [])\<lparr>pendingUpdates := [pending_example (utf16 ''a''), pending_example (utf16 ''b'')]\<rparr>)
   = (fresh [])\<lparr>pendingUpdates := [pending_example (utf16 ''b'')]\<rparr>"
proof -
  let ?s = "(fresh [])\<lparr>pendingUpdates := [pending_example (utf16 ''a''), pending_example (utf16 ''b'')]\<rparr>"
  let ?m1 = "pending_message TPendingUpdate (Some (PendingOne (pending_example (utf16 ''c'')))) None"
  let ?m2 = "pending_message TPendingResolved None (Some (utf16 ''a''))"
  have 1: "d_type ?m1 = TPendingUpdate" "d_pending ?m1 = Some (PendingOne (pending_example (utf16 ''c'')))"
    by (simp_all add: pending_message_def)
  have 2: "d_type ?m2 = TPendingResolved" "d_pending_id ?m2 = Some (utf16 ''a'')"
    by (simp_all add: pending_message_def)
  have 3: "pu_id (pending_example i) = i" for i by (simp add: pending_example_def)
  from pending_events_change_only_pending_list [of ?m1 "pending_example (utf16 ''c'')" 1 ?s] 1
  have a: "onmessage 1 (Json ?m1) ?s = ?s\<lparr>pendingUpdates := pendingUpdates ?s @ [pending_example (utf16 ''c'')]\<rparr>"
    by blast
  from pending_events_change_only_pending_list [of ?m2 _ 2 ?s] 2
  have b: "onmessage 2 (Json ?m2) ?s =
      ?s\<lparr>pendingUpdates := filter (\<lambda>q. Some (pu_id q) \<noteq> d_pending_id ?m2) (pendingUpdates ?s)\<rparr>"
    by blast
  show ?thesis unfolding a b by (simp add: pending_message_def 3 fresh_def utf16_def)
qed

section \<open>Audio chunks: \<^verbatim>\<open>useRecording\<close>\<close>

text \<open>
  \<^verbatim>\<open>frontend/hooks/useRecording.ts\<close> (\<^verbatim>\<open>static/js/recording.js\<close> holds the older
  copy). A \<^verbatim>\<open>Blob\<close> is its bytes, and \<^verbatim>\<open>new Blob(parts)\<close> joins the parts, so its
  \<^verbatim>\<open>size\<close> is the length of the concatenation. The recorder's state: the refs
  \<^verbatim>\<open>audioChunksRef\<close> and \<^verbatim>\<open>chunkCounterRef\<close>, the React state \<^verbatim>\<open>chunkCounter\<close> and
  \<^verbatim>\<open>processingCount\<close>, and what it sends out: the calls of \<^verbatim>\<open>onTranscript\<close> (chunk
  number and status; errors surface there) and the requests \<^verbatim>\<open>processAudio\<close> posts to
  the audio endpoint.
\<close>

type_synonym blob = "nat list"

datatype transcript_status = Processing | Queued | Failed

record recorder =
  audioChunks :: "blob list"
  chunkCounterRef :: nat
  chunkCounter :: nat
  processingCount :: nat
  transcriptCalls :: "(nat \<times> transcript_status) list"
  requests :: "(blob \<times> nat) list"

text \<open>
  \<^verbatim>\<open>mediaRecorder.ondataavailable = (e) => { if (e.data.size > 0) { audioChunksRef.current.push(e.data); } };\<close>
\<close>

definition ondataavailable :: "blob \<Rightarrow> recorder \<Rightarrow> recorder" where
  "ondataavailable d r =
     (if 0 < length d then r\<lparr>audioChunks := audioChunks r @ [d]\<rparr> else r)"

text \<open>
  \<^verbatim>\<open>processChunkAsync\<close> up to its \<^verbatim>\<open>await\<close>: it counts the chunk as processing, reports
  it as transcribing and posts the request. What it does with the server's answer
  comes later and is not part of \<^verbatim>\<open>onstop\<close>.
\<close>

definition processChunkAsync :: "blob \<Rightarrow> nat \<Rightarrow> recorder \<Rightarrow> recorder" where
  "processChunkAsync audioBlob chunkNum r =
     r\<lparr>processingCount := processingCount r + 1,
       transcriptCalls := transcriptCalls r @ [(chunkNum, Processing)],
       requests := requests r @ [(audioBlob, chunkNum)]\<rparr>"

text \<open>
  \<^verbatim>\<open>mediaRecorder.onstop = () => {
    if (audioChunksRef.current.length > 0) {
      chunkCounterRef.current++;
      setChunkCounter(chunkCounterRef.current);
      const audioBlob = new Blob(audioChunksRef.current, { type: 'audio/webm' });
      if (audioBlob.size > 1000) { processChunkAsync(audioBlob, chunkCounterRef.current); }
      audioChunksRef.current = [];
    }
  };\<close>
\<close>

definition onstop :: "recorder \<Rightarrow> recorder" where
  "onstop r =
     (if audioChunks r \<noteq> [] then
        let n = chunkCounterRef r + 1;
            r1 = r\<lparr>chunkCounterRef := n, chunkCounter := n\<rparr>;
            audioBlob = concat (audioChunks r1);
            r2 = (if 1000 < length audioBlob then processChunkAsync audioBlob n r1 else r1)
        in r2\<lparr>audioChunks := []\<rparr>
      else r)"

text \<open>
  Claim C10. When a recording session that captured at least one blob stops, the
  assembled blob is posted to the audio endpoint if and only if it is larger than 1000
  bytes. A blob of 1000 bytes or less is dropped: no request, no transcript call (so no
  error is shown), the processing count is as before; the chunk counter is incremented
  all the same.
\<close>

theorem audio_blob_submitted_iff_over_1000_bytes:
  assumes "audioChunks r \<noteq> []"
  shows "(1000 < length (concat (audioChunks r)) \<longrightarrow>
            onstop r =
              r\<lparr>chunkCounterRef := chunkCounterRef r + 1,
                chunkCounter := chunkCounterRef r + 1,
                processingCount := processingCount r + 1,
                transcriptCalls := transcriptCalls r @ [(chunkCounterRef r + 1, Processing)],
                requests := requests r @ [(concat (audioChunks r), chunkCounterRef r + 1)],
                audioChunks := []\<rparr>) \<and>
         (length (concat (audioChunks r)) \<le> 1000 \<longrightarrow>
            onstop r =
              r\<lparr>chunkCounterRef := chunkCounterRef r + 1,
                chunkCounter := chunkCounterRef r + 1,
                audioChunks := []\<rparr>) \<and>
         (requests (onstop r) \<noteq> requests r \<longleftrightarrow> 1000 < length (concat (audioChunks r)))"
  using assms by (simp add: onstop_def processChunkAsync_def Let_def)

definition silence :: "nat \<Rightarrow> blob" where
  "silence n = replicate n 0"

lemma length_silence: "length (silence n) = n"
  by (simp add: silence_def)

definition recording :: "blob list \<Rightarrow> recorder" where
  "recording cs =
     \<lparr>audioChunks = cs, chunkCounterRef = 4, chunkCounter = 4, processingCount = 0,
      transcriptCalls = [], requests = []\<rparr>"

theorem audio_blob_submitted_iff_over_1000_bytes_witness:
  "onstop (recording [silence 600, silence 400]) =
     \<lparr>audioChunks = [], chunkCounterRef = 5, chunkCounter = 5, processingCount = 0,
      transcriptCalls = [], requests = []\<rparr> \<and>
   requests (onstop (recording [silence 600, silence 401])) =
     [(silence 600 @ silence 401, 5)]"
proof -
  let ?small = "recording [silence 600, silence 400]"
  let ?big = "recording [silence 600, silence 401]"
  have a: "audioChunks ?small \<noteq> []" "audioChunks ?big \<noteq> []"
    by (simp_all add: recording_def)
  have l: "length (concat (audioChunks ?small)) \<le> 1000"
    "1000 < length (concat (audioChunks ?big))"
    by (simp_all add: recording_def length_silence)
  from audio_blob_submitted_iff_over_1000_bytes [OF a(1)] l(1)
  have 1: "onstop ?small =
      ?small\<lparr>chunkCounterRef := chunkCounterRef ?small + 1,
         chunkCounter := chunkCounterRef ?small + 1,
         audioChunks := []\<rparr>"
    by blast
  from audio_blob_submitted_iff_over_1000_bytes [OF a(2)] l(2)
  have 2: "onstop ?big =
      ?big\<lparr>chunkCounterRef := chunkCounterRef ?big + 1,
         chunkCounter := chunkCounterRef ?big + 1,
         processingCount := processingCount ?big + 1,
         transcriptCalls := transcriptCalls ?big @ [(chunkCounterRef ?big + 1, Processing)],
         requests := requests ?big @ [(concat (audioChunks ?big), chunkCounterRef ?big + 1)],
         audioChunks := []\<rparr>"
    by blast
  show ?thesis unfolding 1 2 by (simp add: recording_def)
qed

section \<open>Finding the header to highlight\<close>

text \<open>
  The rendered headers (\<^verbatim>\<open>querySelectorAll('h1, h2, h3')\<close>) are the list of their
  \<^verbatim>\<open>textContent\<close>, in document order; a header element is its index in that list.
  \<^verbatim>\<open>String.prototype.toLowerCase\<close> follows the Unicode case mapping and is a
  parameter of the model.

  \<^verbatim>\<open>findHeaderElement\<close> of \<^verbatim>\<open>static/js/rendering.js\<close>:
  \<^verbatim>\<open>if (text === search) score = 100;
  else if (text.startsWith(search) || search.startsWith(text)) score = 50;
  else if (text.indexOf(search) !== -1 || search.indexOf(text) !== -1) score = 10;
  if (score > bestScore) { bestScore = score; bestMatch = h; }\<close>
\<close>

definition score :: "jsstring \<Rightarrow> jsstring \<Rightarrow> int" where
  "score text search =
     (if text = search then 100
      else if prefix search text \<or> prefix text search then 50
      else if sublist search text \<or> sublist text search then 10
      else 0)"

fun scan_headers ::
    "(jsstring \<Rightarrow> jsstring) \<Rightarrow> jsstring \<Rightarrow> nat \<Rightarrow> jsstring list \<Rightarrow> nat option \<times> int
      \<Rightarrow> nat option \<times> int" where
  "scan_headers toLowerCase search i [] best = best"
| "scan_headers toLowerCase search i (h # hs) (bestMatch, bestScore) =
     (let text = trim (toLowerCase h);
          sc = score text search
      in scan_headers toLowerCase search (Suc i) hs
           (if bestScore < sc then (Some i, sc) else (bestMatch, bestScore)))"

definition findHeaderElement ::
    "(jsstring \<Rightarrow> jsstring) \<Rightarrow> jsstring option \<Rightarrow> jsstring list \<Rightarrow> nat option" where
  "findHeaderElement toLowerCase name hs =
     (if \<not> truthy name then None
      else
        let search = trim (toLowerCase (or_empty name));
            best = scan_headers toLowerCase search 0 hs (None, - 1)
        in if 0 < snd best then fst best else None)"

text \<open>
  The effect of \<^verbatim>\<open>frontend/components/MarkdownRenderer.tsx\<close>: the same three tests
  set \<^verbatim>\<open>isMatch\<close>, and every header with \<^verbatim>\<open>isMatch\<close> gets the class
  \<^verbatim>\<open>glow-green\<close>.
\<close>

definition isMatch :: "jsstring \<Rightarrow> jsstring \<Rightarrow> bool" where
  "isMatch text search =
     (if text = search then True
      else if prefix search text \<or> prefix text search then True
      else if sublist search text \<or> sublist text search then True
      else False)"

fun glow_from :: "(jsstring \<Rightarrow> jsstring) \<Rightarrow> jsstring \<Rightarrow> nat \<Rightarrow> jsstring list \<Rightarrow> nat list" where
  "glow_from toLowerCase search i [] = []"
| "glow_from toLowerCase search i (h # hs) =
     (if isMatch (trim (toLowerCase h)) search
      then i # glow_from toLowerCase search (Suc i) hs
      else glow_from toLowerCase search (Suc i) hs)"

definition MarkdownRenderer_glow ::
    "(jsstring \<Rightarrow> jsstring) \<Rightarrow> jsstring option \<Rightarrow> jsstring list \<Rightarrow> nat list" where
  "MarkdownRenderer_glow toLowerCase name hs =
     (if \<not> truthy name then []
      else glow_from toLowerCase (trim (toLowerCase (or_empty name))) 0 hs)"

definition ascii_lower :: "jsstring \<Rightarrow> jsstring" where
  "ascii_lower s = map (\<lambda>c. if 65 \<le> c \<and> c \<le> 90 then c + 32 else c) s"

lemmas header_eval =
  findHeaderElement_def MarkdownRenderer_glow_def isMatch_def score_def truthy_def or_empty_def
  ascii_lower_def trim_def is_space_def is_white_space_def is_line_terminator_def utf16_def
  Let_def

text \<open>
  What \<^verbatim>\<open>findHeaderElement\<close> selects: the score of a header for a search text, and the
  first header among those of the best score.
\<close>

definition header_score :: "(jsstring \<Rightarrow> jsstring) \<Rightarrow> jsstring \<Rightarrow> jsstring \<Rightarrow> int" where
  "header_score toLowerCase search h = score (trim (toLowerCase h)) search"

definition all_at_most :: "(jsstring \<Rightarrow> int) \<Rightarrow> jsstring list \<Rightarrow> int \<Rightarrow> bool" where
  "all_at_most sc hs b = (\<forall>j < length hs. sc (hs ! j) \<le> b)"

definition first_best :: "(jsstring \<Rightarrow> int) \<Rightarrow> jsstring list \<Rightarrow> nat \<Rightarrow> bool" where
  "first_best sc hs k =
     (k < length hs \<and> (\<forall>j < length hs. sc (hs ! j) \<le> sc (hs ! k)) \<and>
      (\<forall>j < k. sc (hs ! j) < sc (hs ! k)))"

lemma all_at_most_Nil: "all_at_most sc [] b"
  by (simp add: all_at_most_def)

lemma all_at_most_Cons: "all_at_most sc (h # hs) b \<longleftrightarrow> sc h \<le> b \<and> all_at_most sc hs b"
  unfolding all_at_most_def by (auto simp: less_Suc_eq_0_disj)

lemma first_best_0: "first_best sc (h # hs) 0 \<longleftrightarrow> all_at_most sc hs (sc h)"
  unfolding first_best_def all_at_most_def by (auto simp: less_Suc_eq_0_disj)

lemma first_best_Suc:
  "first_best sc (h # hs) (Suc k) \<longleftrightarrow> sc h < sc (hs ! k) \<and> first_best sc hs k"
  unfolding first_best_def by (auto simp: less_Suc_eq_0_disj)

lemma all_at_most_trans: "all_at_most sc hs a \<Longrightarrow> a \<le> b \<Longrightarrow> all_at_most sc hs b"
  unfolding all_at_most_def by fastforce

lemma scan_headers_spec:
  "scan_headers lc search i hs (bm, bs) = (bm', bs') \<Longrightarrow>
     (all_at_most (header_score lc search) hs bs \<longrightarrow> bm' = bm \<and> bs' = bs) \<and>
     (\<not> all_at_most (header_score lc search) hs bs \<longrightarrow>
        (\<exists>k. first_best (header_score lc search) hs k \<and> bm' = Some (i + k) \<and>
             bs' = header_score lc search (hs ! k) \<and> bs < header_score lc search (hs ! k)))"
proof (induction hs arbitrary: i bm bs)
  case Nil
  then show ?case by (simp add: all_at_most_Nil)
next
  case (Cons h hs)
  let ?sc = "header_score lc search"
  show ?case
  proof (cases "bs < ?sc h")
    case True
    with Cons.prems have r: "scan_headers lc search (Suc i) hs (Some i, ?sc h) = (bm', bs')"
      by (simp add: header_score_def Let_def)
    note IH = Cons.IH [OF r]
    from True have notall: "\<not> all_at_most ?sc (h # hs) bs"
      by (simp add: all_at_most_Cons)
    have "\<exists>k. first_best ?sc (h # hs) k \<and> bm' = Some (i + k) \<and>
             bs' = ?sc ((h # hs) ! k) \<and> bs < ?sc ((h # hs) ! k)"
    proof (cases "all_at_most ?sc hs (?sc h)")
      case t: True
      with IH have "bm' = Some i" "bs' = ?sc h" by simp_all
      with t True have "first_best ?sc (h # hs) 0 \<and> bm' = Some (i + 0) \<and>
             bs' = ?sc ((h # hs) ! 0) \<and> bs < ?sc ((h # hs) ! 0)"
        by (simp add: first_best_0)
      then show ?thesis by (rule exI)
    next
      case False
      with IH obtain k where k: "first_best ?sc hs k" "bm' = Some (Suc i + k)"
        "bs' = ?sc (hs ! k)" "?sc h < ?sc (hs ! k)"
        by blast
      with True have "first_best ?sc (h # hs) (Suc k) \<and> bm' = Some (i + Suc k) \<and>
             bs' = ?sc ((h # hs) ! Suc k) \<and> bs < ?sc ((h # hs) ! Suc k)"
        by (simp add: first_best_Suc)
      then show ?thesis by (rule exI)
    qed
    with notall show ?thesis by blast
  next
    case False
    with Cons.prems have r: "scan_headers lc search (Suc i) hs (bm, bs) = (bm', bs')"
      by (simp add: header_score_def Let_def)
    note IH = Cons.IH [OF r]
    show ?thesis
    proof (cases "all_at_most ?sc hs bs")
      case t: True
      with False have "all_at_most ?sc (h # hs) bs" by (simp add: all_at_most_Cons)
      moreover from IH t have "bm' = bm \<and> bs' = bs" by blast
      ultimately show ?thesis by blast
    next
      case f: False
      then have notall: "\<not> all_at_most ?sc (h # hs) bs" by (simp add: all_at_most_Cons)
      from f IH obtain k where k: "first_best ?sc hs k" "bm' = Some (Suc i + k)"
        "bs' = ?sc (hs ! k)" "bs < ?sc (hs ! k)"
        by blast
      from False k(4) have "?sc h < ?sc (hs ! k)" by simp
      with k have "first_best ?sc (h # hs) (Suc k) \<and> bm' = Some (i + Suc k) \<and>
             bs' = ?sc ((h # hs) ! Suc k) \<and> bs < ?sc ((h # hs) ! Suc k)"
        by (simp add: first_best_Suc)
      then have "\<exists>k. first_best ?sc (h # hs) k \<and> bm' = Some (i + k) \<and>
             bs' = ?sc ((h # hs) ! k) \<and> bs < ?sc ((h # hs) ! k)"
        by (rule exI)
      with notall show ?thesis by blast
    qed
  qed
qed

lemma score_nonneg: "0 \<le> score a b"
  by (simp add: score_def)

lemma first_best_unique:
  assumes "first_best sc hs k" "first_best sc hs m"
  shows "k = m"
proof (rule ccontr)
  assume "k \<noteq> m"
  then consider "k < m" | "m < k" by linarith
  then show False
  proof cases
    case 1
    with assms(2) have "sc (hs ! k) < sc (hs ! m)" by (simp add: first_best_def)
    moreover from assms have "sc (hs ! m) \<le> sc (hs ! k)" by (simp add: first_best_def)
    ultimately show False by simp
  next
    case 2
    with assms(1) have "sc (hs ! m) < sc (hs ! k)" by (simp add: first_best_def)
    moreover from assms have "sc (hs ! k) \<le> sc (hs ! m)" by (simp add: first_best_def)
    ultimately show False by simp
  qed
qed

text \<open>
  For a non-empty name, \<^verbatim>\<open>findHeaderElement\<close> returns the first header of the best
  score when that score is positive, and null exactly when every header scores 0.
\<close>

lemma findHeaderElement_selects_first_best:
  assumes "truthy name"
  shows "(findHeaderElement lc name hs = Some k \<longleftrightarrow>
            first_best (header_score lc (trim (lc (or_empty name)))) hs k \<and>
            0 < header_score lc (trim (lc (or_empty name))) (hs ! k)) \<and>
         (findHeaderElement lc name hs = None \<longleftrightarrow>
            all_at_most (header_score lc (trim (lc (or_empty name)))) hs 0)"
proof -
  define search where "search = trim (lc (or_empty name))"
  let ?sc = "header_score lc search"
  obtain bm bs where r: "scan_headers lc search 0 hs (None, - 1) = (bm, bs)"
    by (cases "scan_headers lc search 0 hs (None, - 1)")
  have f: "findHeaderElement lc name hs = (if 0 < bs then bm else None)"
    using assms r by (simp add: findHeaderElement_def search_def Let_def)
  have nn: "0 \<le> ?sc h" for h by (simp add: header_score_def score_nonneg)
  note spec = scan_headers_spec [OF r]
  have goal: "(findHeaderElement lc name hs = Some k \<longleftrightarrow> first_best ?sc hs k \<and> 0 < ?sc (hs ! k)) \<and>
         (findHeaderElement lc name hs = None \<longleftrightarrow> all_at_most ?sc hs 0)"
  proof (cases "all_at_most ?sc hs (- 1)")
    case True
    with spec have e: "bm = None" "bs = - 1" by simp_all
    have "hs = []"
    proof (rule ccontr)
      assume "hs \<noteq> []"
      then have "0 < length hs" by simp
      with True have "?sc (hs ! 0) \<le> - 1" unfolding all_at_most_def by blast
      with nn [of "hs ! 0"] show False by simp
    qed
    with f e show ?thesis by (simp add: all_at_most_Nil first_best_def)
  next
    case False
    with spec obtain m where m: "first_best ?sc hs m" "bm = Some m" "bs = ?sc (hs ! m)"
      by auto
    show ?thesis
    proof (cases "0 < bs")
      case True
      then have fm: "findHeaderElement lc name hs = Some m" using f m(2) by simp
      have "\<not> all_at_most ?sc hs 0"
      proof
        assume "all_at_most ?sc hs 0"
        moreover from m(1) have "m < length hs" by (simp add: first_best_def)
        ultimately have "?sc (hs ! m) \<le> 0" unfolding all_at_most_def by blast
        with True m(3) show False by simp
      qed
      moreover have "(Some m = Some k) \<longleftrightarrow> first_best ?sc hs k \<and> 0 < ?sc (hs ! k)"
      proof
        assume "Some m = Some k"
        with m True show "first_best ?sc hs k \<and> 0 < ?sc (hs ! k)" by simp
      next
        assume "first_best ?sc hs k \<and> 0 < ?sc (hs ! k)"
        then have "k = m" using m(1) by (blast intro: first_best_unique)
        then show "Some m = Some k" by simp
      qed
      ultimately show ?thesis unfolding fm by simp
    next
      case nb: False
      then have fn: "findHeaderElement lc name hs = None" using f by simp
      from nb m(3) have z: "?sc (hs ! m) \<le> 0" by simp
      from m(1) have "\<forall>j < length hs. ?sc (hs ! j) \<le> ?sc (hs ! m)"
        by (simp add: first_best_def)
      with z have a0: "all_at_most ?sc hs 0" unfolding all_at_most_def by fastforce
      have "\<not> (first_best ?sc hs k \<and> 0 < ?sc (hs ! k))"
      proof
        assume a: "first_best ?sc hs k \<and> 0 < ?sc (hs ! k)"
        then have "k < length hs" by (simp add: first_best_def)
        with a0 have "?sc (hs ! k) \<le> 0" unfolding all_at_most_def by blast
        with a show False by simp
      qed
      with a0 show ?thesis unfolding fn by simp
    qed
  qed
  then show ?thesis unfolding search_def .
qed

text \<open>
  Claim C6. When a section is animated by its heading name, exactly one rendered header
  is selected: the best by exact, then prefix, then substring match on the lower-cased
  trimmed text, the first in document order among equal scores. \<^verbatim>\<open>findHeaderElement\<close>
  does that; the React renderer does not: it highlights every header that matches at
  any of the three levels. With the headers \<open>Marketing\<close> and \<open>Marketing Plan\<close> and the
  name \<open>Marketing\<close>, \<^verbatim>\<open>findHeaderElement\<close> selects the first header, and
  \<^verbatim>\<open>MarkdownRenderer\<close> highlights both.
\<close>

theorem MarkdownRenderer_highlights_every_match:
  "MarkdownRenderer_glow ascii_lower (Some (utf16 ''Marketing''))
     [utf16 ''Marketing'', utf16 ''Marketing Plan''] = [0, 1] \<and>
   findHeaderElement ascii_lower (Some (utf16 ''Marketing''))
     [utf16 ''Marketing'', utf16 ''Marketing Plan''] = Some 0"
  by (simp add: header_eval)

section \<open>The match classifier\<close>

text \<open>
  Modelled from the spec: the Match Classifier, the Pending-Decision Store and the
  chunk pipeline run in the backend (its \<^verbatim>\<open>app.py\<close>), which is not among the source
  files; the README only names the rule ("The 95% Certainty Rule") and its phrases.
  The definitions follow the spec's sections 3, 4.2 and 2: a decision is
  \<open>Update\<close>, \<open>Create\<close> or \<open>Uncertain\<close> (reason, candidate heading, candidate similarity).
\<close>

datatype decision =
  Update jsstring
| Create jsstring
| Uncertain jsstring "jsstring option" "real option"

text \<open>
  Modelled from the spec: how a chunk is read for hedge language, whose code is not
  among the source files. Section 8 has the chunk "Actually, wait, let's use TikTok
  instead" recognized by the phrase "actually wait" of section 4.2, and the README
  writes the phrases as "Wait, no...", "Actually, wait...": the reading ignores case
  and punctuation. A text is read as its words, in lower case: the maximal runs of
  letters and digits (a code unit outside ASCII counts as a letter).
\<close>

definition is_word_char :: "nat \<Rightarrow> bool" where
  "is_word_char c =
     ((48 \<le> c \<and> c \<le> 57) \<or> (65 \<le> c \<and> c \<le> 90) \<or> (97 \<le> c \<and> c \<le> 122) \<or> 128 \<le> c)"

definition lower_char :: "nat \<Rightarrow> nat" where
  "lower_char c = (if 65 \<le> c \<and> c \<le> 90 then c + 32 else c)"

fun words_acc :: "jsstring \<Rightarrow> jsstring \<Rightarrow> jsstring list" where
  "words_acc w [] = (if w = [] then [] else [w])"
| "words_acc w (c # cs) =
     (if is_word_char c then words_acc (w @ [lower_char c]) cs
      else if w = [] then words_acc [] cs
      else w # words_acc [] cs)"

definition words_of :: "jsstring \<Rightarrow> jsstring list" where
  "words_of s = words_acc [] s"

text \<open>
  Modelled from the spec: the hedge and retraction phrases of section 4.2, step 3
  ("wait no", "actually wait", "scratch that", "nevermind", and the hedge words "maybe",
  "possibly"); the classifier's list is not among the source files.
\<close>

definition hedge_phrases :: "jsstring list" where
  "hedge_phrases =
     [utf16 ''wait no'', utf16 ''actually wait'', utf16 ''scratch that'', utf16 ''nevermind'',
      utf16 ''maybe'', utf16 ''possibly'']"

text \<open>
  Modelled from the spec: the hedge detection of section 4.2, step 3, whose code is
  not among the source files: a chunk contains a phrase when the words of the phrase
  stand in the words of the chunk, one after the other.
\<close>

definition contains_phrase :: "jsstring \<Rightarrow> jsstring \<Rightarrow> bool" where
  "contains_phrase phrase chunk = sublist (words_of phrase) (words_of chunk)"

definition contains_hedge :: "jsstring \<Rightarrow> bool" where
  "contains_hedge chunk = list_ex (\<lambda>p. contains_phrase p chunk) hedge_phrases"

text \<open>
  Modelled from the spec: the algorithm of section 4.2, steps 3 to 6. The similarity
  search of steps 1 and 2 is an external service: its best section \<open>best\<close> and score
  \<open>sim\<close> are inputs, as are the thresholds and the heading inferred for a new section.
\<close>

definition classify ::
    "real \<Rightarrow> real \<Rightarrow> (jsstring \<Rightarrow> jsstring) \<Rightarrow> jsstring \<Rightarrow> jsstring \<Rightarrow> real \<Rightarrow> decision" where
  "classify T_confident T_floor newHeading chunk best sim =
     (if contains_hedge chunk
      then Uncertain (utf16 ''hedge or retraction language'') (Some best) (Some sim)
      else if T_confident \<le> sim then Update best
      else if sim < T_floor then Create (newHeading chunk)
      else Uncertain (utf16 ''ambiguous section match'') (Some best) (Some sim))"




lemmas hedge_eval =
  contains_hedge_def contains_phrase_def hedge_phrases_def words_of_def is_word_char_def
  lower_char_def utf16_def sublist_code

text \<open>
  The two chunks of the spec's scenarios (section 8) and the README's demo line, as the
  detection reads them.
\<close>

lemma hedge_in_spec_scenario:
  "contains_hedge (utf16 ''Actually, wait, let's use TikTok instead'')"
  by (simp add: hedge_eval)

lemma hedge_in_readme_demo:
  "contains_hedge (utf16 ''Wait, no, let's use TikTok instead of Instagram'')"
  by (simp add: hedge_eval)

lemma no_hedge_in_plain_chunk:
  "\<not> contains_hedge (utf16 ''Let's target Instagram Reels with a $500 budget'')"
  by (simp add: hedge_eval)

lemma plain_chunk_is_committed:
  "classify (65 / 100) (3 / 10) newHeading
     (utf16 ''Let's target Instagram Reels with a $500 budget'') (utf16 ''Marketing'') (80 / 100)
   = Update (utf16 ''Marketing'')"
  by (simp add: classify_def no_hedge_in_plain_chunk)



section \<open>Heading lines\<close>

text \<open>
  Claim C5 in its own words, to be compared with \<open>headers\<close>: the lines of a text (split
  at every line terminator); a line is a heading when it begins with one to three
  \<^verbatim>\<open>#\<close> followed by a white-space character and at least one more character; its label
  is the trimmed rest of the line after the \<^verbatim>\<open>#\<close> run and the white space.
\<close>

fun lines_of :: "jsstring \<Rightarrow> jsstring list" where
  "lines_of [] = [[]]"
| "lines_of (c # cs) =
     (if is_line_terminator c then [] # lines_of cs
      else (case lines_of cs of [] \<Rightarrow> [[c]] | l # ls \<Rightarrow> (c # l) # ls))"

definition hashes :: "jsstring \<Rightarrow> nat" where
  "hashes l = length (takeWhile (\<lambda>c. c = hash) l)"

definition is_heading_line :: "jsstring \<Rightarrow> bool" where
  "is_heading_line l =
     (1 \<le> hashes l \<and> hashes l \<le> 3 \<and>
      (case drop (hashes l) l of [] \<Rightarrow> False | c # cs \<Rightarrow> is_space c \<and> cs \<noteq> []))"

definition heading_label :: "jsstring \<Rightarrow> jsstring" where
  "heading_label l = trim (dropWhile is_space (drop (hashes l) l))"

definition line_headers :: "jsstring \<Rightarrow> jsstring list" where
  "line_headers content = map heading_label (filter is_heading_line (lines_of content))"

lemmas line_eval =
  line_headers_def heading_label_def is_heading_line_def hashes_def hash_def trim_def
  is_space_def is_white_space_def is_line_terminator_def utf16_def

text \<open>
  On a text of one line (no line terminator) the code's headers are the claim's: the
  two part ways only where a match runs over a line end.
\<close>

definition one_line :: "jsstring \<Rightarrow> bool" where
  "one_line l = (\<forall>c \<in> set l. \<not> is_line_terminator c)"

lemma one_line_drop: "one_line l \<Longrightarrow> one_line (drop k l)"
  unfolding one_line_def by (meson in_set_dropD)

lemma exec_all_False_one_line: "one_line s \<Longrightarrow> exec_all False s = []"
  by (induction s) (simp_all add: one_line_def)

lemma dot_plus_eol_one_line:
  assumes "one_line s"
  shows "dot_plus_eol s = (if s = [] then None else Some (s, []))"
proof -
  from assms have tw: "takeWhile (\<lambda>c. \<not> is_line_terminator c) s = s"
    by (simp add: one_line_def)
  from assms have dw: "dropWhile (\<lambda>c. \<not> is_line_terminator c) s = []"
    by (simp add: one_line_def)
  show ?thesis unfolding dot_plus_eol_def Let_def tw dw by simp
qed

lemma ws_plus_then_one_line:
  assumes "one_line s"
  shows "j \<le> length s \<Longrightarrow>
     ws_plus_then j s =
       (if j = 0 then None
        else if j < length s then Some (drop j s, [])
        else if 2 \<le> j then Some (drop (j - 1) s, [])
        else None)"
proof (induction j)
  case 0
  show ?case by simp
next
  case (Suc j)
  have d: "dot_plus_eol (drop (Suc j) s) =
      (if drop (Suc j) s = [] then None else Some (drop (Suc j) s, []))"
    using one_line_drop [OF assms] by (rule dot_plus_eol_one_line)
  show ?case
  proof (cases "Suc j < length s")
    case True
    with d show ?thesis by simp
  next
    case False
    with Suc.prems have e: "Suc j = length s" by simp
    then have j: "j = length s - 1" "j < length s" by simp_all
    from e have "drop (Suc j) s = []" by simp
    with d have "ws_plus_then (Suc j) s = ws_plus_then j s" by simp
    also have "\<dots> = (if j = 0 then None else Some (drop j s, []))"
      using Suc.IH j(2) by simp
    finally have "ws_plus_then (Suc j) s = (if j = 0 then None else Some (drop j s, []))" .
    moreover have "\<not> Suc j < length s" using e by simp
    moreover have "2 \<le> Suc j \<longleftrightarrow> j \<noteq> 0" by auto
    ultimately show ?thesis by simp
  qed
qed

lemma ws_plus_hash: "ws_plus (hash # s) = None"
  by (simp add: ws_plus_def hash_def is_space_def is_white_space_def is_line_terminator_def)

lemma drop_in_hashes:
  assumes "m < hashes l"
  shows "\<exists>t. drop m l = hash # t"
proof -
  from assms have m: "m < length (takeWhile (\<lambda>c. c = hash) l)" by (simp add: hashes_def)
  then have "m < length l" using length_takeWhile_le [of "\<lambda>c. c = hash" l] by linarith
  then have "drop m l = l ! m # drop (Suc m) l" by (simp add: Cons_nth_drop_Suc)
  moreover have "l ! m = hash"
    using m nth_mem [OF m] takeWhile_nth [OF m] by (metis set_takeWhileD)
  ultimately show ?thesis by simp
qed

lemma hashes_then_below:
  "m < hashes l \<Longrightarrow> hashes_then m l = None"
proof (induction m)
  case 0
  show ?case by simp
next
  case (Suc m)
  from drop_in_hashes [OF Suc.prems] obtain t where "drop (Suc m) l = hash # t" by blast
  then have w: "ws_plus (drop (Suc m) l) = None" by (simp add: ws_plus_hash)
  from Suc.prems have "m < hashes l" by simp
  then have "hashes_then m l = None" by (rule Suc.IH)
  with w show ?case by simp
qed

lemma match_header_hashes:
  "match_header l =
     (if 1 \<le> hashes l \<and> hashes l \<le> 3 then ws_plus (drop (hashes l) l) else None)"
proof (cases "hashes l \<le> 3")
  case True
  then have m: "match_header l = hashes_then (hashes l) l"
    by (simp add: match_header_def hashes_def min_def)
  show ?thesis
  proof (cases "hashes l")
    case 0
    with m show ?thesis by simp
  next
    case (Suc k)
    then have "hashes_then k l = None" by (simp add: hashes_then_below)
    with m Suc True show ?thesis by (simp split: option.split)
  qed
next
  case False
  then have "match_header l = hashes_then 3 l" "3 < hashes l"
    by (simp_all add: match_header_def hashes_def min_def)
  with False show ?thesis by (simp add: hashes_then_below)
qed

lemma trim_Nil: "trim [] = []"
  by (simp add: trim_def)

lemma trim_dropWhile: "trim (dropWhile is_space s) = trim s"
  by (simp add: trim_def)

lemma trim_all_space:
  assumes "\<forall>c \<in> set s. is_space c"
  shows "trim s = []"
proof -
  from assms have d: "dropWhile is_space s = []" by (simp only: dropWhile_eq_Nil_conv)
  show ?thesis unfolding trim_def d by simp
qed

lemma lines_of_one_line: "one_line l \<Longrightarrow> lines_of l = [l]"
  by (induction l) (simp_all add: one_line_def)

lemma match_header_one_line:
  assumes "one_line l"
  shows "(is_heading_line l \<longrightarrow>
            (\<exists>cap. match_header l = Some (cap, []) \<and> trim cap = heading_label l)) \<and>
         (\<not> is_heading_line l \<longrightarrow> match_header l = None)"
proof -
  define r where "r = drop (hashes l) l"
  define w where "w = length (takeWhile is_space r)"
  have olr: "one_line r" unfolding r_def using assms by (rule one_line_drop)
  have wle: "w \<le> length r" unfolding w_def by (rule length_takeWhile_le)
  have dw: "drop w r = dropWhile is_space r" unfolding w_def by (simp add: dropWhile_eq_drop)
  have lab: "heading_label l = trim (drop w r)"
    by (simp only: heading_label_def r_def [symmetric] dw)
  have ws: "ws_plus r =
       (if w = 0 then None
        else if w < length r then Some (drop w r, [])
        else if 2 \<le> w then Some (drop (w - 1) r, [])
        else None)"
    unfolding ws_plus_def w_def [symmetric] using olr wle by (rule ws_plus_then_one_line)
  have w0: "w = 0 \<longleftrightarrow> (case r of [] \<Rightarrow> True | c # cs \<Rightarrow> \<not> is_space c)"
    unfolding w_def by (cases r) auto
  have hl: "is_heading_line l \<longleftrightarrow> 1 \<le> hashes l \<and> hashes l \<le> 3 \<and> 0 < w \<and> 2 \<le> length r"
  proof (cases r)
    case Nil
    with w0 show ?thesis by (simp add: is_heading_line_def r_def [symmetric])
  next
    case (Cons c cs)
    with w0 have "0 < w \<longleftrightarrow> is_space c" by auto
    moreover have "2 \<le> length r \<longleftrightarrow> cs \<noteq> []" using Cons by (cases cs) auto
    ultimately show ?thesis using Cons by (auto simp: is_heading_line_def r_def [symmetric])
  qed
  have mh: "match_header l = (if 1 \<le> hashes l \<and> hashes l \<le> 3 then ws_plus r else None)"
    unfolding r_def by (rule match_header_hashes)
  show ?thesis
  proof (cases "is_heading_line l")
    case True
    with hl have h: "1 \<le> hashes l" "hashes l \<le> 3" "0 < w" "2 \<le> length r" by simp_all
    show ?thesis
    proof (cases "w < length r")
      case t: True
      with mh ws h have "match_header l = Some (drop w r, [])" by simp
      with lab True show ?thesis by simp
    next
      case False
      with wle have e: "w = length r" by simp
      with mh ws h have m: "match_header l = Some (drop (w - 1) r, [])" by simp
      from e have "takeWhile is_space r = r" unfolding w_def
        by (metis takeWhile_eq_take take_all_iff le_refl)
      then have sp: "\<forall>c \<in> set r. is_space c" by (metis set_takeWhileD)
      then have "\<forall>c \<in> set (drop (w - 1) r). is_space c" by (meson in_set_dropD)
      then have "trim (drop (w - 1) r) = []" by (rule trim_all_space)
      moreover from e have "heading_label l = []" by (simp add: lab trim_Nil)
      ultimately show ?thesis using m True by simp
    qed
  next
    case False
    with hl have "\<not> (1 \<le> hashes l \<and> hashes l \<le> 3) \<or> w = 0 \<or> length r < 2" by auto
    moreover have "ws_plus r = None" if "length r < 2"
      using that ws wle by auto
    ultimately have "match_header l = None" using mh ws by auto
    with False show ?thesis by simp
  qed
qed

lemma headers_of_one_line:
  assumes "one_line l"
  shows "headers l = line_headers l"
proof -
  have lh: "line_headers l = (if is_heading_line l then [heading_label l] else [])"
    by (simp add: line_headers_def lines_of_one_line [OF assms])
  show ?thesis
  proof (cases l)
    case Nil
    have "line_headers [] = []"
      by (simp add: line_headers_def is_heading_line_def hashes_def)
    with Nil show ?thesis by (simp add: headers_def)
  next
    case (Cons c cs)
    from assms Cons have cs: "one_line cs" "\<not> is_line_terminator c"
      by (simp_all add: one_line_def)
    show ?thesis
    proof (cases "is_heading_line l")
      case True
      with match_header_one_line [OF assms] obtain cap
        where m: "match_header l = Some (cap, [])" and t: "trim cap = heading_label l"
        by blast
      from m have "exec_all True l = [cap]" unfolding Cons by simp
      with True t show ?thesis by (simp add: headers_def lh)
    next
      case False
      with match_header_one_line [OF assms] have "match_header l = None" by blast
      then have "exec_all True l = []"
        unfolding Cons using cs by (simp add: exec_all_False_one_line)
      with False show ?thesis by (simp add: headers_def lh)
    qed
  qed
qed

text \<open>
  Claim C5. Every line of a text is recognized as a heading exactly when it begins with
  one to three \<^verbatim>\<open>#\<close>, white space and a further character, and the label is the trimmed
  rest of the line. The code's regular expression does not stay on the line: \<^verbatim>\<open>\s+\<close>
  also matches line terminators, so after a line that holds only \<^verbatim>\<open>#\<close> marks the match
  runs on into the next line with text. In \<^verbatim>\<open>"#\nfoo"\<close> the line \<^verbatim>\<open>foo\<close> becomes a
  heading label though no line of the text is a heading, and in
  \<^verbatim>\<open>"# T\n##\n## Plan"\<close> the heading \<^verbatim>\<open>## Plan\<close> gets the label \<^verbatim>\<open>## Plan\<close>
  in place of \<^verbatim>\<open>Plan\<close>.
\<close>

theorem header_match_runs_over_line_ends:
  "headers (utf16 ''#\<newline>foo'') = [utf16 ''foo''] \<and>
   line_headers (utf16 ''#\<newline>foo'') = [] \<and>
   headers (utf16 ''# T\<newline>##\<newline>## Plan'') = [utf16 ''T'', utf16 ''## Plan''] \<and>
   line_headers (utf16 ''# T\<newline>##\<newline>## Plan'') = [utf16 ''T'', utf16 ''Plan'']"
proof -
  have 1: "headers (utf16 ''#\<newline>foo'') = [utf16 ''foo'']"
    by (simp add: regex_eval)
  have 2: "line_headers (utf16 ''#\<newline>foo'') = []"
    by (simp add: line_eval)
  have 3: "headers (utf16 ''# T\<newline>##\<newline>## Plan'') = [utf16 ''T'', utf16 ''## Plan'']"
    by (simp add: regex_eval)
  have 4: "line_headers (utf16 ''# T\<newline>##\<newline>## Plan'') = [utf16 ''T'', utf16 ''Plan'']"
    by (simp add: line_eval)
  from 1 2 3 4 show ?thesis by blast
qed


section \<open>detectNewSection against the headings of the lines\<close>

text \<open>
  Claim C4 in its own words, to be compared with \<open>detectNewSection\<close>: the first
  heading of the new text, in text order, whose trimmed label is not among the trimmed
  heading labels of the old text, and null when there is none. The headings of a text
  are those of its lines (\<open>line_headers\<close>).
\<close>

definition claimed_new_section :: "jsstring \<Rightarrow> jsstring \<Rightarrow> jsstring option" where
  "claimed_new_section oldText newText =
     find (\<lambda>h. h \<notin> set (line_headers oldText)) (line_headers newText)"

lemma first_new_find: "first_new old new = find (\<lambda>h. h \<notin> set old) new"
  by (induction new) simp_all

text \<open>
  Where both texts are a single line, the code returns what the claim says.
\<close>

lemma detectNewSection_of_one_line:
  "one_line oldText \<Longrightarrow> one_line newText \<Longrightarrow>
   detectNewSection oldText newText = claimed_new_section oldText newText"
  by (simp add: detectNewSection_def claimed_new_section_def first_new_find headers_of_one_line)

text \<open>
  Claim C4. For every pair of old and new texts, \<open>detectNewSection\<close> returns the first
  heading of the new text whose trimmed label is not a heading label of the old text,
  and null when every heading label of the new text is one of the old text. The code
  takes its labels from the regular expression, whose \<^verbatim>\<open>\s+\<close> runs over line ends (the
  defect of claim C5), so it can return a label that is no heading's. With the old text
  \<^verbatim>\<open>"# T\n## Plan"\<close> and the new text \<^verbatim>\<open>"# T\n##\n## Plan"\<close> every heading of the
  new text (\<open>T\<close>, \<open>Plan\<close>) is a heading of the old text, so the claim says null; the code
  returns \<^verbatim>\<open>## Plan\<close>. With an empty old text and the new text \<^verbatim>\<open>"#\nfoo"\<close>, which
  has no heading, the code returns \<^verbatim>\<open>foo\<close>.
\<close>

theorem detectNewSection_returns_non_heading:
  "detectNewSection (utf16 ''# T\<newline>## Plan'') (utf16 ''# T\<newline>##\<newline>## Plan'')
     = Some (utf16 ''## Plan'') \<and>
   claimed_new_section (utf16 ''# T\<newline>## Plan'') (utf16 ''# T\<newline>##\<newline>## Plan'')
     = None \<and>
   detectNewSection [] (utf16 ''#\<newline>foo'') = Some (utf16 ''foo'') \<and>
   claimed_new_section [] (utf16 ''#\<newline>foo'') = None"
proof -
  have o: "headers (utf16 ''# T\<newline>## Plan'') = [utf16 ''T'', utf16 ''Plan'']"
    by (simp add: regex_eval)
  have n: "headers (utf16 ''# T\<newline>##\<newline>## Plan'') = [utf16 ''T'', utf16 ''## Plan'']"
    by (simp add: regex_eval)
  have f: "headers (utf16 ''#\<newline>foo'') = [utf16 ''foo'']"
    by (simp add: regex_eval)
  have lo: "line_headers (utf16 ''# T\<newline>## Plan'') = [utf16 ''T'', utf16 ''Plan'']"
    by (simp add: line_eval)
  have ln: "line_headers (utf16 ''# T\<newline>##\<newline>## Plan'') = [utf16 ''T'', utf16 ''Plan'']"
    by (simp add: line_eval)
  have lf: "line_headers (utf16 ''#\<newline>foo'') = []"
    by (simp add: line_eval)
  have l0: "line_headers [] = []"
    by (simp add: line_headers_def is_heading_line_def hashes_def)
  have 1: "detectNewSection (utf16 ''# T\<newline>## Plan'') (utf16 ''# T\<newline>##\<newline>## Plan'')
      = Some (utf16 ''## Plan'')"
    unfolding detectNewSection_def o n by (simp add: utf16_def)
  have 2: "claimed_new_section (utf16 ''# T\<newline>## Plan'')
      (utf16 ''# T\<newline>##\<newline>## Plan'') = None"
    unfolding claimed_new_section_def lo ln by simp
  have 3: "detectNewSection [] (utf16 ''#\<newline>foo'') = Some (utf16 ''foo'')"
    unfolding detectNewSection_def f headers_Nil by simp
  have 4: "claimed_new_section [] (utf16 ''#\<newline>foo'') = None"
    unfolding claimed_new_section_def lf l0 by simp
  from 1 2 3 4 show ?thesis by blast
qed

end
